theory Spec2Isabelle
  imports
    Complex_Main
    "HOL-Library.Word"
    "HOL-Library.Signed_Division"
    "HOL-Library.Log_Nat"
begin

section \<open>Compile-time constants of \<^verbatim>\<open>mandelbrot.cpp\<close>\<close>

definition WIDTH :: int where "WIDTH = 800"
definition HEIGHT :: int where "HEIGHT = 600"
definition MAX_ITER :: int where "MAX_ITER = 800"

section \<open>Binary floating-point numbers\<close>

text \<open>
  The host computes on \<^verbatim>\<open>float\<close> and \<^verbatim>\<open>long double\<close>. Both are modelled as binary
  floating-point formats with round-to-nearest, ties-to-even, gradual underflow, signed
  zeros, infinities and NaN (the default environment of a C++ program). A format has a
  precision \<open>prec\<close> in bits, the exponent \<open>emin\<close> of its smallest normal number, and
  \<open>emax\<close>, so that every finite magnitude is below \<open>2 powi emax\<close>.
\<close>

record fmt =
  prec :: nat
  emin :: int
  emax :: int

definition binary32 :: fmt where
  "binary32 = \<lparr>prec = 24, emin = - 126, emax = 128\<rparr>"

definition binary64 :: fmt where
  "binary64 = \<lparr>prec = 53, emin = - 1022, emax = 1024\<rparr>"

text \<open>The 80-bit \<^verbatim>\<open>long double\<close> of x86.\<close>

definition x87_extended :: fmt where
  "x87_extended = \<lparr>prec = 64, emin = - 16382, emax = 16384\<rparr>"

text \<open>
  A value is a sign (\<open>True\<close> for minus) with a magnitude, an infinity with a sign, or NaN.
  \<open>Fin True 0\<close> is the negative zero.
\<close>

datatype fp = Fin bool rat | Infty bool | NaN

definition val_of :: "bool \<Rightarrow> rat \<Rightarrow> rat" where
  "val_of s m = (if s then - m else m)"

text \<open>\<open>ilog2 x\<close> is the exponent \<open>e\<close> with \<open>2 powi e \<le> x < 2 powi (e + 1)\<close>, for positive \<open>x\<close>.\<close>

definition ilog2 :: "rat \<Rightarrow> int" where
  "ilog2 x = (if 1 \<le> x then bitlen \<lfloor>x\<rfloor> - 1 else - bitlen (\<lceil>1 / x\<rceil> - 1))"

definition round_even :: "rat \<Rightarrow> int" where
  "round_even q =
     (let n = \<lfloor>q\<rfloor>; r = q - of_int n
      in if r < 1 / 2 then n else if 1 / 2 < r then n + 1
         else if even n then n else n + 1)"

text \<open>The exponent of the unit in the last place at magnitude \<open>m\<close>.\<close>

definition ulp_exp :: "fmt \<Rightarrow> rat \<Rightarrow> int" where
  "ulp_exp f m = max (ilog2 m) (emin f) - int (prec f) + 1"

definition round_mag :: "fmt \<Rightarrow> rat \<Rightarrow> rat" where
  "round_mag f m =
     (if m = 0 then 0
      else of_int (round_even (m / 2 powi ulp_exp f m)) * 2 powi ulp_exp f m)"

text \<open>Rounding a signed exact result into the format; it overflows to an infinity.\<close>

definition pack :: "fmt \<Rightarrow> bool \<Rightarrow> rat \<Rightarrow> fp" where
  "pack f s m =
     (let r = round_mag f m
      in if r \<noteq> 0 \<and> emax f \<le> ilog2 r then Infty s else Fin s r)"

fun fp_add :: "fmt \<Rightarrow> fp \<Rightarrow> fp \<Rightarrow> fp" where
  "fp_add f NaN _ = NaN"
| "fp_add f _ NaN = NaN"
| "fp_add f (Infty s) (Infty t) = (if s = t then Infty s else NaN)"
| "fp_add f (Infty s) (Fin t n) = Infty s"
| "fp_add f (Fin s m) (Infty t) = Infty t"
| "fp_add f (Fin s m) (Fin t n) =
     (let v = val_of s m + val_of t n
      in if v = 0 then Fin (s \<and> t) 0 else pack f (v < 0) \<bar>v\<bar>)"

fun fp_neg :: "fp \<Rightarrow> fp" where
  "fp_neg NaN = NaN"
| "fp_neg (Infty s) = Infty (\<not> s)"
| "fp_neg (Fin s m) = Fin (\<not> s) m"

definition fp_sub :: "fmt \<Rightarrow> fp \<Rightarrow> fp \<Rightarrow> fp" where
  "fp_sub f a b = fp_add f a (fp_neg b)"

fun fp_mul :: "fmt \<Rightarrow> fp \<Rightarrow> fp \<Rightarrow> fp" where
  "fp_mul f NaN _ = NaN"
| "fp_mul f _ NaN = NaN"
| "fp_mul f (Infty s) (Infty t) = Infty (s \<noteq> t)"
| "fp_mul f (Infty s) (Fin t n) = (if n = 0 then NaN else Infty (s \<noteq> t))"
| "fp_mul f (Fin s m) (Infty t) = (if m = 0 then NaN else Infty (s \<noteq> t))"
| "fp_mul f (Fin s m) (Fin t n) = pack f (s \<noteq> t) (m * n)"

fun fp_div :: "fmt \<Rightarrow> fp \<Rightarrow> fp \<Rightarrow> fp" where
  "fp_div f NaN _ = NaN"
| "fp_div f _ NaN = NaN"
| "fp_div f (Infty s) (Infty t) = NaN"
| "fp_div f (Infty s) (Fin t n) = Infty (s \<noteq> t)"
| "fp_div f (Fin s m) (Infty t) = Fin (s \<noteq> t) 0"
| "fp_div f (Fin s m) (Fin t n) =
     (if n = 0 then (if m = 0 then NaN else Infty (s \<noteq> t))
      else pack f (s \<noteq> t) (m / n))"

fun fp_less :: "fp \<Rightarrow> fp \<Rightarrow> bool" where
  "fp_less NaN _ = False"
| "fp_less _ NaN = False"
| "fp_less (Infty s) (Infty t) = (s \<and> \<not> t)"
| "fp_less (Infty s) (Fin t n) = s"
| "fp_less (Fin s m) (Infty t) = (\<not> t)"
| "fp_less (Fin s m) (Fin t n) = (val_of s m < val_of t n)"

definition fp_gt :: "fp \<Rightarrow> fp \<Rightarrow> bool" where
  "fp_gt a b = fp_less b a"

text \<open>The comparison \<^verbatim>\<open>==\<close>: the two zeros are equal, NaN equals nothing.\<close>

fun fp_eq :: "fp \<Rightarrow> fp \<Rightarrow> bool" where
  "fp_eq (Fin s m) (Fin t n) = (val_of s m = val_of t n)"
| "fp_eq (Infty s) (Infty t) = (s = t)"
| "fp_eq _ _ = False"

text \<open>A decimal literal or an exact rational, rounded once; an integer operand.\<close>

definition fp_of_rat :: "fmt \<Rightarrow> rat \<Rightarrow> fp" where
  "fp_of_rat f q = pack f (q < 0) \<bar>q\<bar>"

definition fp_of_int :: "fmt \<Rightarrow> int \<Rightarrow> fp" where
  "fp_of_int f i = fp_of_rat f (of_int i)"

text \<open>Conversion into another format.\<close>

fun fp_cvt :: "fmt \<Rightarrow> fp \<Rightarrow> fp" where
  "fp_cvt f (Fin s m) = pack f s m"
| "fp_cvt f x = x"

type_synonym u8 = "8 word"

text \<open>
  \<^verbatim>\<open>static_cast<uint8_t>\<close>: the fraction is dropped. C++ leaves the conversion undefined
  when the truncated value is outside 0..255 (\<open>u8_castable\<close> fails); the model takes the low
  byte there, and 0 for an infinity or NaN.
\<close>

fun fp_trunc :: "fp \<Rightarrow> int" where
  "fp_trunc (Fin s m) = (if s then - \<lfloor>m\<rfloor> else \<lfloor>m\<rfloor>)"
| "fp_trunc _ = 0"

fun u8_castable :: "fp \<Rightarrow> bool" where
  "u8_castable (Fin s m) = (0 \<le> fp_trunc (Fin s m) \<and> fp_trunc (Fin s m) < 256)"
| "u8_castable _ = False"

definition fp_to_u8 :: "fp \<Rightarrow> u8" where
  "fp_to_u8 a = word_of_int (fp_trunc a)"

section \<open>Single-precision arithmetic of the compute device\<close>

text \<open>
  The OpenCL kernel computes on \<^verbatim>\<open>float\<close>. How a device rounds a division, whether it
  keeps subnormal numbers, and how it reads an unsuffixed literal are left to the
  implementation, so the kernel is modelled over an arbitrary arithmetic: a type \<open>'f\<close> of
  float values with the operations the kernel uses. Every operation of the source yields a
  \<^verbatim>\<open>float\<close> again (a device that computes the expressions with unsuffixed literals in
  \<^verbatim>\<open>double\<close> and rounds only on assignment is not covered). \<open>fint\<close> is the conversion of
  an \<^verbatim>\<open>int\<close> operand, \<open>flit\<close> the value of a decimal literal, \<open>fgt\<close> the comparison
  \<^verbatim>\<open>>\<close>.
\<close>

record 'f arith =
  fadd :: "'f \<Rightarrow> 'f \<Rightarrow> 'f"
  fsub :: "'f \<Rightarrow> 'f \<Rightarrow> 'f"
  fmul :: "'f \<Rightarrow> 'f \<Rightarrow> 'f"
  fdiv :: "'f \<Rightarrow> 'f \<Rightarrow> 'f"
  fgt :: "'f \<Rightarrow> 'f \<Rightarrow> bool"
  fint :: "int \<Rightarrow> 'f"
  flit :: "rat \<Rightarrow> 'f"

text \<open>The arithmetic of a device that rounds every operation correctly in the format \<open>f\<close>.\<close>

definition ieee :: "fmt \<Rightarrow> fp arith" where
  "ieee f = \<lparr>fadd = fp_add f, fsub = fp_sub f, fmul = fp_mul f, fdiv = fp_div f,
             fgt = fp_gt, fint = fp_of_int f, flit = fp_of_rat f\<rparr>"

section \<open>The kernel \<^verbatim>\<open>mandelbrot\<close>\<close>

text \<open>
  The kernel arguments \<^verbatim>\<open>offsetX\<close>, \<^verbatim>\<open>offsetY\<close>, \<^verbatim>\<open>zoom\<close>, as one value. The
  \<^verbatim>\<open>int\<close>s of the kernel are integers here: the counter stays between 0 and \<^verbatim>\<open>max_iter\<close>
  (\<open>mandel_loop_iter_bounds\<close>) and a cell index below \<^verbatim>\<open>width * height\<close>, so with 32-bit
  arguments nothing wraps around.
\<close>

record 'f viewport =
  offsetX :: 'f
  offsetY :: 'f
  zoom :: 'f

text \<open>
  Lines 70 to 74: the complex coordinate of the work-item \<open>(x, y)\<close> in a global range
  of \<open>width\<close> by \<open>height\<close>. \<^verbatim>\<open>width/2\<close> is a division of \<^verbatim>\<open>int\<close>s, truncating; the
  difference \<^verbatim>\<open>x - width/2\<close> is an \<^verbatim>\<open>int\<close> converted for the multiplication.
\<close>

definition scaleX :: "'f arith \<Rightarrow> int \<Rightarrow> 'f \<Rightarrow> 'f" where
  "scaleX A width zm = fdiv A (fdiv A (flit A (7 / 2)) (fint A width)) zm"

definition scaleY :: "'f arith \<Rightarrow> int \<Rightarrow> 'f \<Rightarrow> 'f" where
  "scaleY A height zm = fdiv A (fdiv A (flit A 2) (fint A height)) zm"

definition cx :: "'f arith \<Rightarrow> 'f viewport \<Rightarrow> int \<Rightarrow> int \<Rightarrow> 'f" where
  "cx A v width x =
     fadd A (fmul A (fint A (x - width sdiv 2)) (scaleX A width (zoom v))) (offsetX v)"

definition cy :: "'f arith \<Rightarrow> 'f viewport \<Rightarrow> int \<Rightarrow> int \<Rightarrow> 'f" where
  "cy A v height y =
     fadd A (fmul A (fint A (y - height sdiv 2)) (scaleY A height (zoom v))) (offsetY v)"

text \<open>
  Lines 76 to 88: the iteration. The state of the loop is \<^verbatim>\<open>zx\<close>, \<^verbatim>\<open>zy\<close>, \<^verbatim>\<open>iter\<close>.
  Two more fields observe the control flow and are not variables of the source:
  \<open>escaped\<close> tells that the loop was left through \<^verbatim>\<open>break\<close>, and \<open>passes\<close> counts how
  often the loop body was entered.
\<close>

record 'f loop_exit =
  zx :: 'f
  zy :: 'f
  iter :: int
  escaped :: bool
  passes :: nat

function mandel_loop ::
  "'f arith \<Rightarrow> 'f \<Rightarrow> 'f \<Rightarrow> int \<Rightarrow> 'f \<Rightarrow> 'f \<Rightarrow> int \<Rightarrow> nat \<Rightarrow> 'f loop_exit" where
  "mandel_loop A c_x c_y max_iter z_x z_y it n =
     (if it < max_iter then
        (if fgt A (fadd A (fmul A z_x z_x) (fmul A z_y z_y)) (flit A 4)
         then \<lparr>zx = z_x, zy = z_y, iter = it, escaped = True, passes = Suc n\<rparr>
         else mandel_loop A c_x c_y max_iter
                (fadd A (fsub A (fmul A z_x z_x) (fmul A z_y z_y)) c_x)
                (fadd A (fmul A (fmul A (flit A 2) z_x) z_y) c_y)
                (it + 1) (Suc n))
      else \<lparr>zx = z_x, zy = z_y, iter = it, escaped = False, passes = n\<rparr>)"
  by pat_completeness auto
termination
  by (relation "measure (\<lambda>(A, c_x, c_y, max_iter, z_x, z_y, it, n). nat (max_iter - it))") auto

declare mandel_loop.simps [simp del]

text \<open>
  The loop as the kernel enters it: \<^verbatim>\<open>zx = 0.0, zy = 0.0, iter = 0\<close>.
\<close>

definition iterate :: "'f arith \<Rightarrow> 'f \<Rightarrow> 'f \<Rightarrow> int \<Rightarrow> 'f loop_exit" where
  "iterate A c_x c_y max_iter = mandel_loop A c_x c_y max_iter (flit A 0) (flit A 0) 0 0"

text \<open>
  What the work-item \<open>(x, y)\<close> of a \<open>width\<close> by \<open>height\<close> range runs the loop on.
\<close>

definition kernel_loop ::
  "'f arith \<Rightarrow> 'f viewport \<Rightarrow> int \<Rightarrow> int \<Rightarrow> int \<Rightarrow> int \<Rightarrow> int \<Rightarrow> 'f loop_exit" where
  "kernel_loop A v max_iter width height x y =
     iterate A (cx A v width x) (cy A v height y) max_iter"

text \<open>
  Line 90: the work-item stores \<^verbatim>\<open>iter % 256\<close>, three times, in its cell of the output
  buffer. \<^verbatim>\<open>%\<close> is the remainder of the truncating division.
\<close>

record uchar3 =
  s0 :: u8
  s1 :: u8
  s2 :: u8

definition mandelbrot ::
  "'f arith \<Rightarrow> 'f viewport \<Rightarrow> int \<Rightarrow> int \<Rightarrow> int \<Rightarrow> int \<Rightarrow> int \<Rightarrow> uchar3 list \<Rightarrow> uchar3 list" where
  "mandelbrot A v max_iter width height x y output =
     (let it = iter (kernel_loop A v max_iter width height x y)
      in output[nat (y * width + x) :=
           \<lparr>s0 = word_of_int (it smod 256), s1 = word_of_int (it smod 256),
            s2 = word_of_int (it smod 256)\<rparr>])"

text \<open>
  \<^verbatim>\<open>enqueueNDRangeKernel\<close> over a range of \<open>w\<close> by \<open>h\<close>: one work-item for each \<open>(x, y)\<close>.
  The work-items store in distinct cells, so the order they run in does not show.
\<close>

definition enqueueNDRangeKernel ::
  "'f arith \<Rightarrow> 'f viewport \<Rightarrow> int \<Rightarrow> nat \<Rightarrow> nat \<Rightarrow> uchar3 list \<Rightarrow> uchar3 list" where
  "enqueueNDRangeKernel A v max_iter w h output =
     fold (\<lambda>(y, x). mandelbrot A v max_iter (int w) (int h) (int x) (int y))
       (List.product [0..<h] [0..<w]) output"

text \<open>The pixel that the work-item of the cell \<open>q = (y, x)\<close> stores.\<close>

definition pixel_of :: "'f arith \<Rightarrow> 'f viewport \<Rightarrow> int \<Rightarrow> nat \<Rightarrow> nat \<Rightarrow> nat \<times> nat \<Rightarrow> uchar3" where
  "pixel_of A v max_iter w h q =
     (let it = iter (kernel_loop A v max_iter (int w) (int h) (int (snd q)) (int (fst q)))
      in \<lparr>s0 = word_of_int (it smod 256), s1 = word_of_int (it smod 256),
          s2 = word_of_int (it smod 256)\<rparr>)"

section \<open>The palette\<close>

type_synonym rgb = "u8 \<times> u8 \<times> u8"

text \<open>
  Lines 32 to 35, in the \<^verbatim>\<open>long double\<close> format \<open>ld\<close> of the platform. The products
  associate to the left; the \<^verbatim>\<open>int\<close> operands are converted, and \<^verbatim>\<open>8.5\<close> is a
  \<^verbatim>\<open>double\<close> literal converted.
\<close>

definition palette_t :: "fmt \<Rightarrow> int \<Rightarrow> fp" where
  "palette_t ld it = fp_div ld (fp_of_int ld it) (fp_of_int ld MAX_ITER)"

definition red :: "fmt \<Rightarrow> fp \<Rightarrow> fp" where
  "red ld t =
     fp_mul ld (fp_mul ld (fp_mul ld (fp_mul ld
       (fp_mul ld (fp_of_int ld 9) (fp_sub ld (fp_of_int ld 1) t)) t) t) t) (fp_of_int ld 255)"

definition green :: "fmt \<Rightarrow> fp \<Rightarrow> fp" where
  "green ld t =
     fp_mul ld (fp_mul ld (fp_mul ld (fp_mul ld
       (fp_mul ld (fp_of_int ld 15) (fp_sub ld (fp_of_int ld 1) t))
       (fp_sub ld (fp_of_int ld 1) t)) t) t) (fp_of_int ld 255)"

definition blue :: "fmt \<Rightarrow> fp \<Rightarrow> fp" where
  "blue ld t =
     fp_mul ld (fp_mul ld (fp_mul ld (fp_mul ld
       (fp_mul ld (fp_cvt ld (fp_of_rat binary64 (17 / 2))) (fp_sub ld (fp_of_int ld 1) t))
       (fp_sub ld (fp_of_int ld 1) t)) (fp_sub ld (fp_of_int ld 1) t)) t) (fp_of_int ld 255)"

definition color_of :: "fmt \<Rightarrow> int \<Rightarrow> rgb" where
  "color_of ld it =
     (fp_to_u8 (red ld (palette_t ld it)), fp_to_u8 (green ld (palette_t ld it)),
      fp_to_u8 (blue ld (palette_t ld it)))"

text \<open>
  \<^verbatim>\<open>initColorTable\<close> stores the entries 0 to \<open>MAX_ITER\<close> in the global table, which line 16
  creates with \<open>MAX_ITER + 1\<close> zeroed entries.
\<close>

definition initColorTable :: "fmt \<Rightarrow> rgb list \<Rightarrow> rgb list" where
  "initColorTable ld tbl =
     fold (\<lambda>i tb. tb[i := color_of ld (int i)]) [0..<nat (MAX_ITER + 1)] tbl"

definition colorTable0 :: "rgb list" where
  "colorTable0 = replicate (nat (MAX_ITER + 1)) (0, 0, 0)"

section \<open>\<^verbatim>\<open>generateMandelbrot\<close>\<close>

text \<open>
  An index outside a vector or a mapped buffer is undefined behaviour in the source; the
  model returns the fault instead.
\<close>

datatype fault = ColorTableOutOfBounds | OutputOutOfBounds | ImageOutOfBounds

fun fold_err :: "('a \<Rightarrow> 's \<Rightarrow> fault + 's) \<Rightarrow> 'a list \<Rightarrow> 's \<Rightarrow> fault + 's" where
  "fold_err g [] s = Inr s"
| "fold_err g (a # as) s = (case g a s of Inl e \<Rightarrow> Inl e | Inr s' \<Rightarrow> fold_err g as s')"

text \<open>
  Lines 119 to 123, the body of the two loops: the byte \<^verbatim>\<open>s0\<close> of the pixel indexes the
  table, and the entry goes to three consecutive bytes of the image.
\<close>

definition color_pixel :: "rgb list \<Rightarrow> uchar3 list \<Rightarrow> nat \<Rightarrow> nat \<Rightarrow> u8 list \<Rightarrow> fault + u8 list" where
  "color_pixel tbl output y x img =
     (let idx = y * nat WIDTH + x
      in if \<not> idx < length output then Inl OutputOutOfBounds
         else if \<not> unat (s0 (output ! idx)) < length tbl then Inl ColorTableOutOfBounds
         else (case tbl ! unat (s0 (output ! idx)) of
                 (r, g, b) \<Rightarrow>
                   if idx * 3 + 2 < length img
                   then Inr (img[idx * 3 := r, idx * 3 + 1 := g, idx * 3 + 2 := b])
                   else Inl ImageOutOfBounds))"

definition color_rows :: "rgb list \<Rightarrow> uchar3 list \<Rightarrow> u8 list \<Rightarrow> fault + u8 list" where
  "color_rows tbl output img =
     fold_err (\<lambda>y. fold_err (color_pixel tbl output y) [0..<nat WIDTH]) [0..<nat HEIGHT] img"

text \<open>
  The device buffer is created without contents; every cell of it is written by the
  kernel before the host reads it, and the model starts it zeroed.
\<close>

definition generateMandelbrot ::
  "'f arith \<Rightarrow> rgb list \<Rightarrow> 'f viewport \<Rightarrow> u8 list \<Rightarrow> fault + u8 list" where
  "generateMandelbrot A tbl v img =
     color_rows tbl
       (enqueueNDRangeKernel A v MAX_ITER (nat WIDTH) (nat HEIGHT)
          (replicate (nat (WIDTH * HEIGHT)) \<lparr>s0 = 0, s1 = 0, s2 = 0\<rparr>))
       img"

text \<open>The three bytes of the pixel \<open>idx\<close> in the image.\<close>

definition entry_at :: "u8 list \<Rightarrow> nat \<Rightarrow> rgb" where
  "entry_at img idx = (img ! (idx * 3), img ! (idx * 3 + 1), img ! (idx * 3 + 2))"

section \<open>The program state and \<^verbatim>\<open>generateMandelbrotAsync\<close>\<close>

text \<open>
  The globals of the program, with the image of \<^verbatim>\<open>main\<close>. \<open>detached\<close> counts the
  threads that \<^verbatim>\<open>generateMandelbrotAsync\<close> has started and that have not finished.
\<close>

record 'f program =
  view :: "'f viewport"
  needsRedraw :: bool
  isGenerating :: bool
  colorTable :: "rgb list"
  image_buf :: "u8 list"
  detached :: nat

definition generateMandelbrotAsync :: "'f program \<Rightarrow> 'f program" where
  "generateMandelbrotAsync p =
     (if isGenerating p then p
      else p\<lparr>isGenerating := True, detached := Suc (detached p)\<rparr>)"

text \<open>
  The body of the detached thread, run in one step: it generates from the globals as they
  are when it runs, and clears the flag.
\<close>

definition thread_body :: "'f arith \<Rightarrow> 'f program \<Rightarrow> fault + 'f program" where
  "thread_body A p =
     (case generateMandelbrot A (colorTable p) (view p) (image_buf p) of
        Inl e \<Rightarrow> Inl e
      | Inr img \<Rightarrow> Inr (p\<lparr>image_buf := img, isGenerating := False, detached := detached p - 1\<rparr>))"

section \<open>The key events of \<^verbatim>\<open>main\<close>\<close>

datatype key = SDLK_w | SDLK_s | SDLK_a | SDLK_d | SDLK_e | SDLK_q | SDLK_other

text \<open>
  \<^verbatim>\<open>0.1f / zoom\<close> is a \<^verbatim>\<open>float\<close> division. \<^verbatim>\<open>zoom *= 1.05L\<close> converts \<^verbatim>\<open>zoom\<close> to
  \<^verbatim>\<open>long double\<close> (the format \<open>ld\<close>), multiplies there, and converts the product back.
\<close>

definition pan_step :: "fp \<Rightarrow> fp" where
  "pan_step zm = fp_div binary32 (fp_of_rat binary32 (1 / 10)) zm"

definition zoom_in :: "fmt \<Rightarrow> fp \<Rightarrow> fp" where
  "zoom_in ld zm = fp_cvt binary32 (fp_mul ld (fp_cvt ld zm) (fp_of_rat ld (21 / 20)))"

definition zoom_out :: "fmt \<Rightarrow> fp \<Rightarrow> fp" where
  "zoom_out ld zm = fp_cvt binary32 (fp_div ld (fp_cvt ld zm) (fp_of_rat ld (21 / 20)))"

fun keydown :: "fmt \<Rightarrow> key \<Rightarrow> fp program \<Rightarrow> fp program" where
  "keydown ld SDLK_w p =
     p\<lparr>view := (view p)\<lparr>offsetY := fp_sub binary32 (offsetY (view p)) (pan_step (zoom (view p)))\<rparr>,
       needsRedraw := True\<rparr>"
| "keydown ld SDLK_s p =
     p\<lparr>view := (view p)\<lparr>offsetY := fp_add binary32 (offsetY (view p)) (pan_step (zoom (view p)))\<rparr>,
       needsRedraw := True\<rparr>"
| "keydown ld SDLK_a p =
     p\<lparr>view := (view p)\<lparr>offsetX := fp_sub binary32 (offsetX (view p)) (pan_step (zoom (view p)))\<rparr>,
       needsRedraw := True\<rparr>"
| "keydown ld SDLK_d p =
     p\<lparr>view := (view p)\<lparr>offsetX := fp_add binary32 (offsetX (view p)) (pan_step (zoom (view p)))\<rparr>,
       needsRedraw := True\<rparr>"
| "keydown ld SDLK_e p =
     p\<lparr>view := (view p)\<lparr>zoom := zoom_in ld (zoom (view p))\<rparr>, needsRedraw := True\<rparr>"
| "keydown ld SDLK_q p =
     p\<lparr>view := (view p)\<lparr>zoom := zoom_out ld (zoom (view p))\<rparr>, needsRedraw := True\<rparr>"
| "keydown ld SDLK_other p = p"

text \<open>
  Lines 18 to 21 and 28: the initial globals. The initialisers are \<^verbatim>\<open>double\<close> literals
  converted to \<^verbatim>\<open>float\<close>.
\<close>

definition float_init :: "rat \<Rightarrow> fp" where
  "float_init q = fp_cvt binary32 (fp_of_rat binary64 q)"

definition view0 :: "fp viewport" where
  "view0 = \<lparr>offsetX = float_init (- 705922586560551705765 / 1000000000000000000000),
            offsetY = float_init (- 267652025962102419929 / 1000000000000000000000),
            zoom = float_init (1 / 2)\<rparr>"

definition program0 :: "fp program" where
  "program0 = \<lparr>view = view0, needsRedraw = False, isGenerating = False,
               colorTable = colorTable0,
               image_buf = replicate (nat (WIDTH * HEIGHT * 3)) 0, detached = 0\<rparr>"

text \<open>
  The invariant of \<^verbatim>\<open>zoom\<close>: plus infinity, or a positive number not below the smallest
  positive \<^verbatim>\<open>float\<close>, \<open>2 powi (- 149)\<close>.
\<close>

definition positive_float :: "fp \<Rightarrow> bool" where
  "positive_float z \<longleftrightarrow> z = Infty False \<or> (\<exists>m. z = Fin False m \<and> 2 powi (- 149) \<le> m)"

section \<open>Termination of the iteration\<close>

lemma mandel_loop_passes:
  "passes (mandel_loop A c_x c_y max_iter z_x z_y it n) \<le> n + nat (max_iter - it)"
proof (induction A c_x c_y max_iter z_x z_y it n rule: mandel_loop.induct)
  case (1 A c_x c_y max_iter z_x z_y it n)
  show ?case
  proof (cases "it < max_iter")
    case False
    then show ?thesis by (simp add: mandel_loop.simps [of A c_x c_y max_iter z_x z_y it n])
  next
    case True
    show ?thesis
    proof (cases "fgt A (fadd A (fmul A z_x z_x) (fmul A z_y z_y)) (flit A 4)")
      case esc: True
      with True show ?thesis
        by (simp add: mandel_loop.simps [of A c_x c_y max_iter z_x z_y it n])
    next
      case noesc: False
      from "1.IH" [OF True noesc] True noesc show ?thesis
        by (simp add: mandel_loop.simps [of A c_x c_y max_iter z_x z_y it n])
    qed
  qed
qed

lemma mandel_loop_iter_bounds:
  "it \<le> iter (mandel_loop A c_x c_y max_iter z_x z_y it n) \<and>
   iter (mandel_loop A c_x c_y max_iter z_x z_y it n) \<le> max it max_iter"
proof (induction A c_x c_y max_iter z_x z_y it n rule: mandel_loop.induct)
  case (1 A c_x c_y max_iter z_x z_y it n)
  show ?case
  proof (cases "it < max_iter")
    case False
    then show ?thesis by (simp add: mandel_loop.simps [of A c_x c_y max_iter z_x z_y it n])
  next
    case True
    show ?thesis
    proof (cases "fgt A (fadd A (fmul A z_x z_x) (fmul A z_y z_y)) (flit A 4)")
      case esc: True
      with True show ?thesis
        by (simp add: mandel_loop.simps [of A c_x c_y max_iter z_x z_y it n])
    next
      case noesc: False
      from "1.IH" [OF True noesc] True noesc show ?thesis
        by (simp add: mandel_loop.simps [of A c_x c_y max_iter z_x z_y it n])
    qed
  qed
qed

text \<open>
  C9. The iteration is a total function (its termination is proved above: the distance
  \<^verbatim>\<open>max_iter - iter\<close> shrinks with every pass), and for every arithmetic, every viewport,
  finite or not, and every work-item the loop body is entered at most \<^verbatim>\<open>max_iter\<close> times
  (never, when \<^verbatim>\<open>max_iter\<close> is not positive); with the program's \<open>MAX_ITER\<close> that is at most
  800 passes, and the counter returned lies between 0 and \<open>MAX_ITER\<close>.
\<close>

theorem kernel_terminates_within_max_iter:
  "passes (kernel_loop A v max_iter width height x y) \<le> nat max_iter \<and>
   passes (kernel_loop A v MAX_ITER width height x y) \<le> 800 \<and>
   0 \<le> iter (kernel_loop A v MAX_ITER width height x y) \<and>
   iter (kernel_loop A v MAX_ITER width height x y) \<le> MAX_ITER"
proof -
  have p: "passes (kernel_loop A v m width height x y) \<le> nat m" for m
    using mandel_loop_passes [of A "cx A v width x" "cy A v height y" m "flit A 0" "flit A 0" 0 0]
    by (simp add: kernel_loop_def iterate_def)
  have i: "0 \<le> iter (kernel_loop A v MAX_ITER width height x y) \<and>
      iter (kernel_loop A v MAX_ITER width height x y) \<le> MAX_ITER"
    using mandel_loop_iter_bounds
      [of 0 A "cx A v width x" "cy A v height y" MAX_ITER "flit A 0" "flit A 0" 0]
    by (simp add: kernel_loop_def iterate_def MAX_ITER_def)
  from p [of max_iter] p [of MAX_ITER] i show ?thesis
    by (simp add: MAX_ITER_def)
qed

section \<open>Evaluating the floating-point model\<close>

lemma bitlen_One: "bitlen 1 = 1"
  by (subst compute_bitlen) simp

lemma bitlen_Bit0: "bitlen (numeral (Num.Bit0 n)) = bitlen (numeral n) + 1"
  by (subst compute_bitlen) simp

lemma bitlen_Bit1: "bitlen (numeral (Num.Bit1 n)) = bitlen (numeral n) + 1"
  by (subst compute_bitlen) simp

lemma floor_rat_numeral: "\<lfloor>numeral a / numeral b :: rat\<rfloor> = numeral a div numeral b"
  using floor_divide_of_int_eq [of "numeral a" "numeral b", where ?'a = rat] by simp

lemma ceiling_rat_numeral: "\<lceil>numeral a / numeral b :: rat\<rceil> = - (- numeral a div numeral b)"
  using floor_divide_of_int_eq [of "- numeral a" "numeral b", where ?'a = rat]
  by (simp add: ceiling_def)

lemmas fp_eval = fp_of_int_def fp_of_rat_def fp_sub_def fp_gt_def pack_def round_mag_def
  ulp_exp_def ilog2_def round_even_def val_of_def Let_def bitlen_One bitlen_Bit0 bitlen_Bit1
  floor_rat_numeral ceiling_rat_numeral binary32_def binary64_def x87_extended_def

lemma pack_zero: "pack f s 0 = Fin s 0"
  by (simp add: pack_def round_mag_def)

lemma color_of_0: "color_of x87_extended 0 = (0, 0, 0)"
  by (simp add: color_of_def palette_t_def red_def green_def blue_def fp_to_u8_def MAX_ITER_def fp_eval)

lemma color_of_800: "color_of x87_extended 800 = (0, 0, 0)"
  by (simp add: color_of_def palette_t_def red_def green_def blue_def fp_to_u8_def MAX_ITER_def fp_eval)

lemma color_of_0_b64: "color_of binary64 0 = (0, 0, 0)"
  by (simp add: color_of_def palette_t_def red_def green_def blue_def fp_to_u8_def MAX_ITER_def fp_eval)

lemma color_of_800_b64: "color_of binary64 800 = (0, 0, 0)"
  by (simp add: color_of_def palette_t_def red_def green_def blue_def fp_to_u8_def MAX_ITER_def fp_eval)

lemma color_of_32: "color_of x87_extended 32 = (0, 5, 76)"
  by (simp add: color_of_def palette_t_def red_def green_def blue_def fp_to_u8_def MAX_ITER_def fp_eval)


section \<open>Two orbits\<close>

lemma mandel_loop_fixed:
  assumes "\<not> fgt A (fadd A (fmul A z_x z_x) (fmul A z_y z_y)) (flit A 4)"
    and "fadd A (fsub A (fmul A z_x z_x) (fmul A z_y z_y)) c_x = z_x"
    and "fadd A (fmul A (fmul A (flit A 2) z_x) z_y) c_y = z_y"
  shows "mandel_loop A c_x c_y max_iter z_x z_y it n =
    \<lparr>zx = z_x, zy = z_y, iter = max it max_iter, escaped = False,
     passes = n + nat (max_iter - it)\<rparr>"
proof (induction "nat (max_iter - it)" arbitrary: it n)
  case 0
  then show ?case
    by (simp add: mandel_loop.simps [of A c_x c_y max_iter z_x z_y it n])
next
  case (Suc k)
  then have lt: "it < max_iter" and k: "k = nat (max_iter - (it + 1))" by linarith+
  from Suc.hyps(1) [OF k, of "Suc n"] lt assms show ?case
    by (simp add: mandel_loop.simps [of A c_x c_y max_iter z_x z_y it n])
qed

lemma zero_orbit:
  "iterate (ieee binary32) (Fin s 0) (Fin t 0) max_iter =
    \<lparr>zx = Fin False 0, zy = Fin False 0, iter = max 0 max_iter, escaped = False,
     passes = nat max_iter\<rparr>"
proof -
  have "mandel_loop (ieee binary32) (Fin s 0) (Fin t 0) max_iter (Fin False 0) (Fin False 0) 0 0 =
    \<lparr>zx = Fin False 0, zy = Fin False 0, iter = max 0 max_iter, escaped = False,
     passes = 0 + nat (max_iter - 0)\<rparr>"
    by (rule mandel_loop_fixed) (simp_all add: ieee_def fp_eval)
  then show ?thesis
    by (simp add: iterate_def ieee_def fp_of_rat_def pack_zero)
qed

lemma mandel_loop_continue:
  assumes "it < max_iter"
    and "\<not> fgt A (fadd A (fmul A z_x z_x) (fmul A z_y z_y)) (flit A 4)"
  shows "mandel_loop A c_x c_y max_iter z_x z_y it n =
    mandel_loop A c_x c_y max_iter
      (fadd A (fsub A (fmul A z_x z_x) (fmul A z_y z_y)) c_x)
      (fadd A (fmul A (fmul A (flit A 2) z_x) z_y) c_y) (it + 1) (Suc n)"
  using assms by (simp add: mandel_loop.simps [of A c_x c_y max_iter z_x z_y it n])

lemma mandel_loop_break:
  assumes "it < max_iter"
    and "fgt A (fadd A (fmul A z_x z_x) (fmul A z_y z_y)) (flit A 4)"
  shows "mandel_loop A c_x c_y max_iter z_x z_y it n =
    \<lparr>zx = z_x, zy = z_y, iter = it, escaped = True, passes = Suc n\<rparr>"
  using assms by (simp add: mandel_loop.simps [of A c_x c_y max_iter z_x z_y it n])

lemma two_orbit:
  assumes "3 \<le> max_iter"
  shows "iterate (ieee binary32) (Fin False 2) (Fin t 0) max_iter =
    \<lparr>zx = Fin False 6, zy = Fin False 0, iter = 2, escaped = True, passes = 3\<rparr>"
proof -
  let ?A = "ieee binary32"
  have z: "flit ?A 0 = Fin False 0" by (simp add: ieee_def fp_of_rat_def pack_zero)
  have t1: "\<not> fgt ?A (fadd ?A (fmul ?A (Fin False 0) (Fin False 0))
      (fmul ?A (Fin False 0) (Fin False 0))) (flit ?A 4)"
    by (simp add: ieee_def fp_eval)
  have x1: "fadd ?A (fsub ?A (fmul ?A (Fin False 0) (Fin False 0))
      (fmul ?A (Fin False 0) (Fin False 0))) (Fin False 2) = Fin False 2"
    by (simp add: ieee_def fp_eval)
  have y1: "fadd ?A (fmul ?A (fmul ?A (flit ?A 2) (Fin False 0)) (Fin False 0)) (Fin t 0) =
      Fin False 0"
    by (cases t) (simp_all add: ieee_def fp_eval)
  have t2: "\<not> fgt ?A (fadd ?A (fmul ?A (Fin False 2) (Fin False 2))
      (fmul ?A (Fin False 0) (Fin False 0))) (flit ?A 4)"
    by (simp add: ieee_def fp_eval)
  have x2: "fadd ?A (fsub ?A (fmul ?A (Fin False 2) (Fin False 2))
      (fmul ?A (Fin False 0) (Fin False 0))) (Fin False 2) = Fin False 6"
    by (simp add: ieee_def fp_eval)
  have y2: "fadd ?A (fmul ?A (fmul ?A (flit ?A 2) (Fin False 2)) (Fin False 0)) (Fin t 0) =
      Fin False 0"
    by (cases t) (simp_all add: ieee_def fp_eval)
  have t3: "fgt ?A (fadd ?A (fmul ?A (Fin False 6) (Fin False 6))
      (fmul ?A (Fin False 0) (Fin False 0))) (flit ?A 4)"
    by (simp add: ieee_def fp_eval)
  have l0: "(0::int) < max_iter" and l1: "(0::int) + 1 < max_iter"
    and l2: "(0::int) + 1 + 1 < max_iter"
    using assms by simp_all
  have "iterate ?A (Fin False 2) (Fin t 0) max_iter =
      mandel_loop ?A (Fin False 2) (Fin t 0) max_iter (Fin False 0) (Fin False 0) 0 0"
    by (simp only: iterate_def z)
  also have "\<dots> = mandel_loop ?A (Fin False 2) (Fin t 0) max_iter (Fin False 2) (Fin False 0)
      (0 + 1) (Suc 0)"
    by (simp only: mandel_loop_continue [OF l0 t1] x1 y1)
  also have "\<dots> = mandel_loop ?A (Fin False 2) (Fin t 0) max_iter (Fin False 6) (Fin False 0)
      (0 + 1 + 1) (Suc (Suc 0))"
    by (simp only: mandel_loop_continue [OF l1 t2] x2 y2)
  also have "\<dots> = \<lparr>zx = Fin False 6, zy = Fin False 0, iter = 0 + 1 + 1, escaped = True,
      passes = Suc (Suc (Suc 0))\<rparr>"
    by (rule mandel_loop_break [OF l2 t3])
  finally show ?thesis by simp
qed

section \<open>The palette table and the colour lookup\<close>


lemma fold_update_upt:
  "n \<le> length tbl \<Longrightarrow>
   fold (\<lambda>i tb. tb[i := g i]) [0..<n] tbl = map g [0..<n] @ drop n tbl"
proof (induction n)
  case 0
  then show ?case by simp
next
  case (Suc n)
  then have n: "n < length tbl" by simp
  have "fold (\<lambda>i tb. tb[i := g i]) [0..<Suc n] tbl = (map g [0..<n] @ drop n tbl)[n := g n]"
    using Suc by simp
  also have "\<dots> = map g [0..<n] @ (drop n tbl)[0 := g n]"
    by (simp add: list_update_append)
  also have "(drop n tbl)[0 := g n] = g n # drop (Suc n) tbl"
    using n by (simp add: Cons_nth_drop_Suc [symmetric])
  finally show ?case by simp
qed

lemma initColorTable_eq:
  assumes "length tbl = nat (MAX_ITER + 1)"
  shows "initColorTable ld tbl = map (\<lambda>i. color_of ld (int i)) [0..<nat (MAX_ITER + 1)]"
  using fold_update_upt [of "nat (MAX_ITER + 1)" tbl "\<lambda>i. color_of ld (int i)"] assms
  by (simp add: initColorTable_def)

lemma initColorTable_nth:
  assumes "length tbl = nat (MAX_ITER + 1)" and "i \<le> nat MAX_ITER"
  shows "initColorTable ld tbl ! i = color_of ld (int i)"
  using assms by (simp add: initColorTable_eq MAX_ITER_def)

lemma length_initColorTable:
  "length tbl = nat (MAX_ITER + 1) \<Longrightarrow> length (initColorTable ld tbl) = nat (MAX_ITER + 1)"
  by (simp add: initColorTable_eq)

lemma fold_err_no_fault:
  assumes "\<And>a s. g a s \<noteq> Inl e"
  shows "fold_err g as s \<noteq> Inl e"
proof (induction as arbitrary: s)
  case Nil
  then show ?case by simp
next
  case (Cons a as)
  show ?case
  proof (cases "g a s")
    case (Inl e')
    with assms [of a s] show ?thesis by simp
  next
    case (Inr s')
    with Cons.IH [of s'] show ?thesis by simp
  qed
qed

lemma byte_in_table:
  assumes "length tbl = nat (MAX_ITER + 1)"
  shows "unat (b :: u8) < length tbl"
proof -
  have "unat b < 2 ^ 8" using unsigned_less [of b, where ?'a = nat] by simp
  with assms show ?thesis by (simp add: MAX_ITER_def)
qed

lemma color_pixel_in_table:
  assumes "length tbl = nat (MAX_ITER + 1)"
  shows "color_pixel tbl output y x img \<noteq> Inl ColorTableOutOfBounds"
  using byte_in_table [OF assms]
  by (simp add: color_pixel_def Let_def split: prod.split)

lemma color_rows_in_table:
  assumes "length tbl = nat (MAX_ITER + 1)"
  shows "color_rows tbl output img \<noteq> Inl ColorTableOutOfBounds"
  unfolding color_rows_def
  by (intro fold_err_no_fault color_pixel_in_table assms)


text \<open>The viewport and the pixel used to run the kernel on a chosen coordinate.\<close>

lemma centre_scaled_x:
  "fp_mul binary32 (fp_of_int binary32 0)
     (fp_div binary32 (fp_div binary32 (fp_of_rat binary32 (7 / 2)) (fp_of_int binary32 800))
        (Fin False (1 / 2))) = Fin False 0"
  by (simp add: fp_eval)

lemma centre_scaled_y:
  "fp_mul binary32 (fp_of_int binary32 0)
     (fp_div binary32 (fp_div binary32 (fp_of_rat binary32 2) (fp_of_int binary32 600))
        (Fin False (1 / 2))) = Fin False 0"
  by (simp add: fp_eval)

lemma centre_cx:
  "cx (ieee binary32) \<lparr>offsetX = a, offsetY = b, zoom = Fin False (1 / 2)\<rparr> WIDTH 400 =
   fp_add binary32 (Fin False 0) a"
  by (simp add: cx_def scaleX_def WIDTH_def signed_divide_int_def ieee_def centre_scaled_x)

lemma centre_cy:
  "cy (ieee binary32) \<lparr>offsetX = a, offsetY = b, zoom = Fin False (1 / 2)\<rparr> HEIGHT 300 =
   fp_add binary32 (Fin False 0) b"
  by (simp add: cy_def scaleY_def HEIGHT_def signed_divide_int_def ieee_def centre_scaled_y)

section \<open>Bounds on rounding\<close>

lemma ilog2_bounds:
  assumes "0 < x"
  shows "2 powi ilog2 x \<le> x \<and> x < 2 powi (ilog2 x + 1)"
proof (cases "1 \<le> x")
  case True
  define n where "n = \<lfloor>x\<rfloor>"
  define b where "b = bitlen n"
  from True have n1: "1 \<le> n" by (simp add: n_def)
  then have bb: "2 ^ nat (b - 1) \<le> n \<and> n < 2 ^ nat b"
    using bitlen_bounds [of n] by (simp add: b_def)
  have b1: "1 \<le> b"
    using n1 bitlen_eq_zero_iff [of n] bitlen_nonneg [of n] unfolding b_def by linarith
  have il: "ilog2 x = b - 1" using True by (simp add: ilog2_def n_def b_def)
  have lo: "(2::rat) powi (b - 1) = of_int (2 ^ nat (b - 1))"
    using b1 by (simp add: power_int_def)
  have hi: "(2::rat) powi b = of_int (2 ^ nat b)"
    using b1 by (simp add: power_int_def)
  have e: "b - 1 + 1 = b" by simp
  have f1: "of_int n \<le> x" by (simp add: n_def)
  have f2: "x < of_int n + 1" unfolding n_def by linarith
  have "(of_int (2 ^ nat (b - 1)) :: rat) \<le> of_int n"
    using bb by (simp only: of_int_le_iff)
  then have f3: "(2::rat) powi (b - 1) \<le> of_int n" by (simp only: lo)
  have "n + 1 \<le> 2 ^ nat b" using bb by simp
  then have "(of_int (n + 1) :: rat) \<le> of_int (2 ^ nat b)" by (simp only: of_int_le_iff)
  then have f4: "(of_int n + 1 :: rat) \<le> 2 powi b" by (simp add: hi)
  from f1 f2 f3 f4 show ?thesis unfolding il e by linarith
next
  case False
  with assms have x1: "x < 1" by simp
  define y where "y = 1 / x"
  define n where "n = \<lceil>y\<rceil>"
  define b where "b = bitlen (n - 1)"
  have y1: "1 < y" using assms x1 by (simp add: y_def)
  then have n2: "2 \<le> n" unfolding n_def by linarith
  then have bb: "2 ^ nat (b - 1) \<le> n - 1 \<and> n - 1 < 2 ^ nat b"
    using bitlen_bounds [of "n - 1"] by (simp add: b_def)
  have b1: "1 \<le> b"
    using n2 bitlen_eq_zero_iff [of "n - 1"] bitlen_nonneg [of "n - 1"]
    unfolding b_def by linarith
  have il: "ilog2 x = - b" using False by (simp add: ilog2_def n_def b_def y_def)
  have lo: "(2::rat) powi (- b) = 1 / of_int (2 ^ nat b)"
    using b1 by (simp add: power_int_def field_simps)
  have hi: "(2::rat) powi (- b + 1) = 1 / of_int (2 ^ nat (b - 1))"
  proof (cases "b = 1")
    case True
    then show ?thesis by simp
  next
    case False
    with b1 have "- b + 1 < 0" by simp
    moreover have "nat (b - 1) = nat (- (- b + 1))" by simp
    ultimately show ?thesis by (simp add: power_int_def field_simps)
  qed
  have yn: "y \<le> of_int n" by (simp add: n_def)
  have ny: "of_int (n - 1) < y" unfolding n_def by linarith
  have "n \<le> 2 ^ nat b" using bb by simp
  then have "(of_int n :: rat) \<le> of_int (2 ^ nat b)" by (simp only: of_int_le_iff)
  with yn have yhi: "y \<le> of_int (2 ^ nat b)" by linarith
  have "(of_int (2 ^ nat (b - 1)) :: rat) \<le> of_int (n - 1)"
    using bb by (simp only: of_int_le_iff)
  with ny have ylo: "of_int (2 ^ nat (b - 1)) < y" by linarith
  have p2: "(0::rat) < of_int (2 ^ nat (b - 1))" by simp
  have y0: "0 < y" using y1 by simp
  have xy: "x = 1 / y" using assms by (simp add: y_def)
  have g1: "1 / of_int (2 ^ nat b) \<le> 1 / y"
    using yhi y0 by (intro divide_left_mono) simp_all
  have g2: "1 / y < 1 / of_int (2 ^ nat (b - 1))"
    using ylo p2 y0 by (intro divide_strict_left_mono) simp_all
  from g1 have h1: "2 powi (- b) \<le> x" by (simp only: lo xy)
  from g2 have h2: "x < 2 powi (- b + 1)" by (simp only: hi xy)
  show ?thesis unfolding il by (rule conjI [OF h1 h2])
qed

lemma ilog2_ge:
  assumes "0 < x" and "2 powi e \<le> x"
  shows "e \<le> ilog2 x"
proof (rule ccontr)
  assume "\<not> e \<le> ilog2 x"
  then have "ilog2 x + 1 \<le> e" by simp
  then have "(2::rat) powi (ilog2 x + 1) \<le> 2 powi e"
    by (intro power_int_increasing) simp_all
  with ilog2_bounds [OF assms(1)] assms(2) show False by linarith
qed

lemma ilog2_less:
  assumes "0 < x" and "x < 2 powi e"
  shows "ilog2 x < e"
proof (rule ccontr)
  assume "\<not> ilog2 x < e"
  then have "e \<le> ilog2 x" by simp
  then have "(2::rat) powi e \<le> 2 powi ilog2 x"
    by (intro power_int_increasing) simp_all
  with ilog2_bounds [OF assms(1)] assms(2) show False by linarith
qed

lemma round_even_bounds: "\<lfloor>q\<rfloor> \<le> round_even q \<and> round_even q \<le> \<lfloor>q\<rfloor> + 1"
  by (simp add: round_even_def Let_def)

lemma round_even_of_int: "round_even (of_int n) = n"
  by (simp add: round_even_def)

lemma round_even_ge:
  assumes "of_int n \<le> q"
  shows "n \<le> round_even q"
proof -
  from assms have "n \<le> \<lfloor>q\<rfloor>" by (simp add: le_floor_iff)
  with round_even_bounds [of q] show ?thesis by linarith
qed

lemma round_even_le:
  assumes "q \<le> of_int n"
  shows "round_even q \<le> n"
proof (cases "q = of_int \<lfloor>q\<rfloor>")
  case True
  then have "round_even q = \<lfloor>q\<rfloor>" using round_even_of_int [of "\<lfloor>q\<rfloor>"] by simp
  moreover from assms have "\<lfloor>q\<rfloor> \<le> n" by (simp add: floor_le_iff)
  ultimately show ?thesis by simp
next
  case False
  then have "of_int \<lfloor>q\<rfloor> < q" using of_int_floor_le [of q] by linarith
  with assms have "(of_int \<lfloor>q\<rfloor> :: rat) < of_int n" by linarith
  then have "\<lfloor>q\<rfloor> < n" by (simp only: of_int_less_iff)
  with round_even_bounds [of q] show ?thesis by linarith
qed

lemma round_even_pos:
  assumes "1 / 2 < q"
  shows "1 \<le> round_even q"
proof (cases "1 \<le> q")
  case True
  then show ?thesis using round_even_ge [of 1 q] by simp
next
  case False
  with assms have "\<lfloor>q\<rfloor> = 0" by (simp add: floor_eq_iff)
  with assms show ?thesis by (simp add: round_even_def Let_def)
qed

lemma two_powi_pos: "(0::rat) < 2 powi k"
  by simp

lemma two_powi_nat: "0 \<le> k \<Longrightarrow> (2::rat) powi k = of_int (2 ^ nat k)"
  by (simp add: power_int_def)

lemma two_powi_diff: "(2::rat) powi a / 2 powi b = 2 powi (a - b)"
  by (simp add: power_int_diff)

lemma two_powi_add: "(2::rat) powi a * 2 powi b = 2 powi (a + b)"
  by (simp add: power_int_add)

lemma grid_shift:
  assumes "e \<le> k"
  shows "(of_int n :: rat) * 2 powi k = of_int (n * 2 ^ nat (k - e)) * 2 powi e"
proof -
  have "(2::rat) powi k = 2 powi (k - e) * 2 powi e" by (simp add: two_powi_add)
  also have "(2::rat) powi (k - e) = of_int (2 ^ nat (k - e))"
    using assms by (intro two_powi_nat) simp
  finally show ?thesis by simp
qed

lemma scaled_round_ge:
  assumes "0 < u" and "of_int N * u \<le> m"
  shows "of_int N * u \<le> of_int (round_even (m / u)) * u"
proof -
  from assms have "of_int N \<le> m / u" by (simp add: pos_le_divide_eq)
  then have "N \<le> round_even (m / u)" by (rule round_even_ge)
  then have "(of_int N :: rat) \<le> of_int (round_even (m / u))" by (simp only: of_int_le_iff)
  with assms(1) show ?thesis by (intro mult_right_mono) simp_all
qed

lemma scaled_round_le:
  assumes "0 < u" and "m \<le> of_int N * u"
  shows "of_int (round_even (m / u)) * u \<le> of_int N * u"
proof -
  from assms have "m / u \<le> of_int N" by (simp add: pos_divide_le_eq)
  then have "round_even (m / u) \<le> N" by (rule round_even_le)
  then have "(of_int (round_even (m / u)) :: rat) \<le> of_int N" by (simp only: of_int_le_iff)
  with assms(1) show ?thesis by (intro mult_right_mono) simp_all
qed

text \<open>The rounded magnitude of a positive number, with its unit.\<close>

lemma round_mag_unfold:
  assumes "0 < m"
  shows "round_mag f m = of_int (round_even (m / 2 powi ulp_exp f m)) * 2 powi ulp_exp f m"
  using assms by (simp add: round_mag_def)

lemma round_mag_normal_ge:
  assumes "0 < m" and "emin f \<le> ilog2 m" and "1 \<le> prec f"
  shows "2 powi ilog2 m \<le> round_mag f m"
proof -
  define e where "e = ulp_exp f m"
  have e: "e = ilog2 m - int (prec f) + 1" using assms(2) by (simp add: e_def ulp_exp_def)
  have "e \<le> ilog2 m" using assms(3) by (simp add: e)
  from grid_shift [OF this, of 1]
  have g: "(2::rat) powi ilog2 m = of_int (1 * 2 ^ nat (ilog2 m - e)) * 2 powi e" by simp
  have "2 powi ilog2 m \<le> m" using ilog2_bounds [OF assms(1)] by simp
  then have "of_int (1 * 2 ^ nat (ilog2 m - e)) * 2 powi e \<le> m" by (simp only: g)
  then have "(of_int (1 * 2 ^ nat (ilog2 m - e)) :: rat) * 2 powi e \<le>
      of_int (round_even (m / 2 powi e)) * 2 powi e"
    by (intro scaled_round_ge) simp_all
  then show ?thesis
    unfolding g round_mag_unfold [OF assms(1), of f] e_def .
qed

lemma round_mag_ge:
  assumes "0 < n" and "of_int n < (2::rat) ^ prec f"
    and "emin f - int (prec f) + 1 \<le> k" and "of_int n * 2 powi k \<le> m"
  shows "of_int n * 2 powi k \<le> round_mag f m"
proof -
  define e where "e = ulp_exp f m"
  have gpos: "(0::rat) < of_int n * 2 powi k" using assms(1) by simp
  with assms(4) have m: "0 < m" by linarith
  have p1: "1 \<le> prec f"
  proof (rule ccontr)
    assume "\<not> 1 \<le> prec f"
    then have "prec f = 0" by simp
    with assms(2) have "(of_int n :: rat) < of_int 1" by simp
    then have "n < 1" by (simp only: of_int_less_iff)
    with assms(1) show False by simp
  qed
  show ?thesis
  proof (cases "e \<le> k")
    case True
    from assms(4) have "of_int (n * 2 ^ nat (k - e)) * 2 powi e \<le> m"
      by (simp only: grid_shift [OF True])
    then have "(of_int (n * 2 ^ nat (k - e)) :: rat) * 2 powi e \<le>
        of_int (round_even (m / 2 powi e)) * 2 powi e"
      by (intro scaled_round_ge) simp_all
    then show ?thesis
      unfolding grid_shift [OF True, of n] round_mag_unfold [OF m, of f] e_def .
  next
    case False
    then have ek: "k < e" by simp
    have il: "emin f \<le> ilog2 m \<and> e = ilog2 m - int (prec f) + 1"
      using ek assms(3) by (simp add: e_def ulp_exp_def max_def split: if_splits)
    then have "k + int (prec f) \<le> ilog2 m" using ek by simp
    then have "(2::rat) powi (k + int (prec f)) \<le> 2 powi ilog2 m"
      by (intro power_int_increasing) simp_all
    moreover have "(2::rat) powi (k + int (prec f)) = 2 ^ prec f * 2 powi k"
      by (simp add: power_int_add)
    moreover have "of_int n * 2 powi k \<le> (2::rat) ^ prec f * 2 powi k"
      using assms(2) by (intro mult_right_mono) simp_all
    moreover have "2 powi ilog2 m \<le> round_mag f m"
      using il p1 by (intro round_mag_normal_ge m) simp_all
    ultimately show ?thesis by linarith
  qed
qed

lemma round_mag_le:
  assumes "0 < n" and "of_int n < (2::rat) ^ prec f"
    and "emin f - int (prec f) + 1 \<le> k" and "m \<le> of_int n * 2 powi k" and "0 \<le> m"
  shows "round_mag f m \<le> of_int n * 2 powi k"
proof (cases "m = 0")
  case True
  then show ?thesis using assms(1) by (simp add: round_mag_def)
next
  case False
  with assms(5) have m: "0 < m" by simp
  define e where "e = ulp_exp f m"
  show ?thesis
  proof (cases "e \<le> k")
    case True
    from assms(4) have "m \<le> of_int (n * 2 ^ nat (k - e)) * 2 powi e"
      by (simp only: grid_shift [OF True])
    then have "(of_int (round_even (m / 2 powi e)) :: rat) * 2 powi e \<le>
        of_int (n * 2 ^ nat (k - e)) * 2 powi e"
      by (intro scaled_round_le) simp_all
    then show ?thesis
      unfolding grid_shift [OF True, of n] round_mag_unfold [OF m, of f] e_def .
  next
    case False
    then have ek: "k < e" by simp
    have il: "emin f \<le> ilog2 m \<and> e = ilog2 m - int (prec f) + 1"
      using ek assms(3) by (simp add: e_def ulp_exp_def max_def split: if_splits)
    then have "k + int (prec f) \<le> ilog2 m" using ek by simp
    then have "(2::rat) powi (k + int (prec f)) \<le> 2 powi ilog2 m"
      by (intro power_int_increasing) simp_all
    moreover have "(2::rat) powi (k + int (prec f)) = 2 ^ prec f * 2 powi k"
      by (simp add: power_int_add)
    moreover have "of_int n * 2 powi k < (2::rat) ^ prec f * 2 powi k"
      using assms(2) by (intro mult_strict_right_mono) simp_all
    moreover have "2 powi ilog2 m \<le> m" using ilog2_bounds [OF m] by simp
    ultimately have False using assms(4) by linarith
    then show ?thesis ..
  qed
qed

lemma round_mag_ge_min:
  assumes "2 powi (emin f - int (prec f)) < m" and "1 \<le> prec f"
  shows "2 powi (emin f - int (prec f) + 1) \<le> round_mag f m"
proof -
  define e where "e = ulp_exp f m"
  have m: "0 < m" using assms(1) two_powi_pos [of "emin f - int (prec f)"] by linarith
  have elow: "emin f - int (prec f) + 1 \<le> e" by (simp add: e_def ulp_exp_def)
  have half: "1 / 2 < m / 2 powi e"
  proof (cases "emin f \<le> ilog2 m")
    case True
    then have e: "e = ilog2 m - int (prec f) + 1" by (simp add: e_def ulp_exp_def)
    have "2 powi ilog2 m \<le> m" using ilog2_bounds [OF m] by simp
    then have "2 powi ilog2 m / 2 powi e \<le> m / 2 powi e"
      by (intro divide_right_mono) simp_all
    moreover have "(2::rat) powi ilog2 m / 2 powi e = 2 powi (int (prec f) - 1)"
      by (simp add: two_powi_diff e)
    moreover have "(1::rat) \<le> 2 powi (int (prec f) - 1)"
      using assms(2) power_int_increasing [of 0 "int (prec f) - 1" "2::rat"] by simp
    ultimately show ?thesis by linarith
  next
    case False
    then have e: "e = emin f - int (prec f) + 1" by (simp add: e_def ulp_exp_def)
    from assms(1) have "2 powi (emin f - int (prec f)) / 2 powi e < m / 2 powi e"
      by (intro divide_strict_right_mono) simp_all
    moreover have "(2::rat) powi (emin f - int (prec f)) / 2 powi e = 1 / 2"
      by (simp add: two_powi_diff e)
    ultimately show ?thesis by linarith
  qed
  then have "1 \<le> round_even (m / 2 powi e)" by (rule round_even_pos)
  then have "(1::rat) \<le> of_int (round_even (m / 2 powi e))" by simp
  then have "1 * 2 powi e \<le> of_int (round_even (m / 2 powi e)) * (2::rat) powi e"
    by (intro mult_right_mono) simp_all
  then have "2 powi e \<le> of_int (round_even (m / 2 powi e)) * (2::rat) powi e"
    by (simp only: mult_1)
  moreover have "(2::rat) powi (emin f - int (prec f) + 1) \<le> 2 powi e"
    using elow by (intro power_int_increasing) simp_all
  ultimately show ?thesis
    unfolding round_mag_unfold [OF m, of f] e_def [symmetric] by linarith
qed







section \<open>The zoom transitions keep \<^verbatim>\<open>zoom\<close> positive\<close>

lemma pack_lower:
  assumes "g \<le> round_mag f m"
  shows "pack f s m = Infty s \<or> (\<exists>r. pack f s m = Fin s r \<and> g \<le> r)"
  using assms by (simp add: pack_def Let_def)

lemma prec_ge_3: "3 \<le> prec f \<Longrightarrow> (8::rat) \<le> 2 ^ prec f"
  using power_increasing [of 3 "prec f" "2::rat"] by simp

lemma zoom_factor:
  assumes "3 \<le> prec ld" and "emin ld - int (prec ld) + 1 \<le> - 152" and "1 \<le> emax ld"
  shows "\<exists>c. fp_of_rat ld (21 / 20) = Fin False c \<and> 1 \<le> c \<and> c \<le> 3 / 2"
proof -
  define c where "c = round_mag ld (21 / 20)"
  from prec_ge_3 [OF assms(1)] have p1: "(of_int 1 :: rat) < 2 ^ prec ld"
    and p3: "(of_int 3 :: rat) < 2 ^ prec ld" by simp_all
  have "of_int 1 * 2 powi 0 \<le> round_mag ld (21 / 20)"
    using assms(2) by (intro round_mag_ge p1) simp_all
  then have lo: "1 \<le> c" by (simp add: c_def)
  have "round_mag ld (21 / 20) \<le> of_int 3 * 2 powi (- 1)"
    using assms(2) by (intro round_mag_le p3) simp_all
  then have hi: "c \<le> 3 / 2" by (simp add: c_def)
  have "c < 2 powi 1" using hi by simp
  with lo have "ilog2 c < 1" by (intro ilog2_less) simp_all
  with assms(3) have "\<not> emax ld \<le> ilog2 c" by simp
  then have "fp_of_rat ld (21 / 20) = Fin False c"
    by (simp add: fp_of_rat_def pack_def c_def)
  with lo hi show ?thesis by blast
qed

lemma to_long_double:
  assumes "3 \<le> prec ld" and "emin ld - int (prec ld) + 1 \<le> - 152"
    and "positive_float z"
  shows "positive_float (fp_cvt ld z)"
proof (cases "z = Infty False")
  case True
  then show ?thesis by (simp add: positive_float_def)
next
  case False
  with assms(3) obtain m where z: "z = Fin False m" and m: "2 powi (- 149) \<le> m"
    by (auto simp: positive_float_def)
  from prec_ge_3 [OF assms(1)] have p1: "(of_int 1 :: rat) < 2 ^ prec ld" by simp
  from m have "of_int 1 * 2 powi (- 149) \<le> m" by simp
  then have "of_int 1 * 2 powi (- 149) \<le> round_mag ld m"
    using assms(2) by (intro round_mag_ge p1) simp_all
  then have "2 powi (- 149) \<le> round_mag ld m" by simp
  from pack_lower [OF this, of False] show ?thesis
    by (auto simp: positive_float_def z)
qed

lemma to_float:
  assumes "z = Infty False \<or> (\<exists>m. z = Fin False m \<and> 5 * 2 powi (- 152) \<le> m)"
  shows "positive_float (fp_cvt binary32 z)"
proof (cases "z = Infty False")
  case True
  then show ?thesis by (simp add: positive_float_def)
next
  case False
  with assms obtain m where z: "z = Fin False m" and m: "5 * 2 powi (- 152) \<le> m"
    by auto
  have "2 powi (emin binary32 - int (prec binary32)) < m"
    using m by (simp add: binary32_def)
  then have "2 powi (emin binary32 - int (prec binary32) + 1) \<le> round_mag binary32 m"
    by (intro round_mag_ge_min) (simp_all add: binary32_def)
  then have "2 powi (- 149) \<le> round_mag binary32 m" by (simp add: binary32_def)
  from pack_lower [OF this, of False] show ?thesis
    by (auto simp: positive_float_def z)
qed

lemma zoom_in_positive:
  assumes "3 \<le> prec ld" and "emin ld - int (prec ld) + 1 \<le> - 152" and "1 \<le> emax ld"
    and "positive_float z"
  shows "positive_float (zoom_in ld z)"
proof -
  from zoom_factor [OF assms(1-3)] obtain c
    where c: "fp_of_rat ld (21 / 20) = Fin False c" and c1: "1 \<le> c" by blast
  from prec_ge_3 [OF assms(1)] have p5: "(of_int 5 :: rat) < 2 ^ prec ld" by simp
  have "fp_mul ld (fp_cvt ld z) (Fin False c) = Infty False \<or>
    (\<exists>r. fp_mul ld (fp_cvt ld z) (Fin False c) = Fin False r \<and> 5 * 2 powi (- 152) \<le> r)"
  proof (cases "fp_cvt ld z = Infty False")
    case True
    then show ?thesis using c1 by simp
  next
    case False
    with to_long_double [OF assms(1,2,4)] obtain m
      where z: "fp_cvt ld z = Fin False m" and m: "2 powi (- 149) \<le> m"
      by (auto simp: positive_float_def)
    from m have m0: "0 \<le> m" using two_powi_pos [of "- 149"] by linarith
    have mc: "m \<le> m * c" using mult_left_mono [of 1 c m] c1 m0 by simp
    have "(5::rat) * 2 powi (- 152) \<le> 2 powi (- 149)" by simp
    with m mc have "5 * 2 powi (- 152) \<le> m * c" by linarith
    then have "of_int 5 * 2 powi (- 152) \<le> m * c" by simp
    then have "of_int 5 * 2 powi (- 152) \<le> round_mag ld (m * c)"
      using assms(2) by (intro round_mag_ge p5) simp_all
    then have "5 * 2 powi (- 152) \<le> round_mag ld (m * c)" by simp
    from pack_lower [OF this, of False] show ?thesis by (simp add: z)
  qed
  then show ?thesis unfolding zoom_in_def c by (rule to_float)
qed

lemma zoom_out_positive:
  assumes "3 \<le> prec ld" and "emin ld - int (prec ld) + 1 \<le> - 152" and "1 \<le> emax ld"
    and "positive_float z"
  shows "positive_float (zoom_out ld z)"
proof -
  from zoom_factor [OF assms(1-3)] obtain c
    where c: "fp_of_rat ld (21 / 20) = Fin False c" and c1: "1 \<le> c" and c2: "c \<le> 3 / 2"
    by blast
  from prec_ge_3 [OF assms(1)] have p5: "(of_int 5 :: rat) < 2 ^ prec ld" by simp
  have "fp_div ld (fp_cvt ld z) (Fin False c) = Infty False \<or>
    (\<exists>r. fp_div ld (fp_cvt ld z) (Fin False c) = Fin False r \<and> 5 * 2 powi (- 152) \<le> r)"
  proof (cases "fp_cvt ld z = Infty False")
    case True
    then show ?thesis by simp
  next
    case False
    with to_long_double [OF assms(1,2,4)] obtain m
      where z: "fp_cvt ld z = Fin False m" and m: "2 powi (- 149) \<le> m"
      by (auto simp: positive_float_def)
    from m have m0: "0 \<le> m" using two_powi_pos [of "- 149"] by linarith
    have c0: "0 < c" using c1 by simp
    have mc: "m / (3 / 2) \<le> m / c" using c2 c0 m0 by (intro divide_left_mono) simp_all
    have "(5::rat) * 2 powi (- 152) \<le> 2 powi (- 149) / (3 / 2)" by simp
    moreover have "2 powi (- 149) / (3 / 2) \<le> m / (3 / 2)"
      using m by (intro divide_right_mono) simp_all
    ultimately have "5 * 2 powi (- 152) \<le> m / c" using mc by linarith
    then have "of_int 5 * 2 powi (- 152) \<le> m / c" by simp
    then have "of_int 5 * 2 powi (- 152) \<le> round_mag ld (m / c)"
      using assms(2) by (intro round_mag_ge p5) simp_all
    then have "5 * 2 powi (- 152) \<le> round_mag ld (m / c)" by simp
    from pack_lower [OF this, of False] c0 show ?thesis by (simp add: z)
  qed
  then show ?thesis unfolding zoom_out_def c by (rule to_float)
qed

lemma keydown_positive:
  assumes "3 \<le> prec ld" and "emin ld - int (prec ld) + 1 \<le> - 152" and "1 \<le> emax ld"
    and "positive_float (zoom (view p))"
  shows "positive_float (zoom (view (keydown ld k p)))"
  using assms zoom_in_positive [OF assms(1-3)] zoom_out_positive [OF assms(1-3)]
  by (cases k) simp_all

lemma keys_positive:
  assumes "3 \<le> prec ld" and "emin ld - int (prec ld) + 1 \<le> - 152" and "1 \<le> emax ld"
    and "positive_float (zoom (view p))"
  shows "positive_float (zoom (view (fold (keydown ld) ks p)))"
  using assms(4)
proof (induction ks arbitrary: p)
  case Nil
  then show ?case by simp
next
  case (Cons k ks)
  from Cons.IH [OF keydown_positive [OF assms(1-3) Cons.prems]] show ?case by simp
qed

lemma positive_float_gt: "positive_float z \<Longrightarrow> fp_gt z (Fin False 0)"
  using two_powi_pos [of "- 149"]
  by (auto simp: positive_float_def fp_gt_def val_of_def)

lemma zoom0: "zoom (view program0) = Fin False (1 / 2)"
  by (simp add: program0_def view0_def float_init_def fp_eval)

lemma zoom0_positive: "positive_float (zoom (view program0))"
  unfolding positive_float_def zoom0 by (intro disjI2 exI [of _ "1 / 2"]) simp


section \<open>Panning right and left\<close>







text \<open>When the sum is exact, the subtraction gives \<^verbatim>\<open>offsetX\<close> back.\<close>

lemma pan_round_trip_exact_sum:
  assumes "offsetX (view p) = Fin s m" and "0 \<le> m" and "pack binary32 s m = Fin s m"
    and "pan_step (zoom (view p)) = Fin t d"
    and "fp_add binary32 (Fin s m) (Fin t d) = Fin u w"
    and "val_of u w = val_of s m + val_of t d"
  shows "fp_eq (offsetX (view (keydown ld SDLK_a (keydown ld SDLK_d p)))) (offsetX (view p)) \<and>
    zoom (view (keydown ld SDLK_a (keydown ld SDLK_d p))) = zoom (view p) \<and>
    offsetY (view (keydown ld SDLK_a (keydown ld SDLK_d p))) = offsetY (view p)"
proof -
  have after: "offsetX (view (keydown ld SDLK_a (keydown ld SDLK_d p))) =
      fp_sub binary32 (Fin u w) (Fin t d)"
    using assms(1,4,5) by simp
  have v: "val_of u w + val_of (\<not> t) d = val_of s m"
    using assms(6) by (simp add: val_of_def)
  have "fp_eq (fp_sub binary32 (Fin u w) (Fin t d)) (Fin s m)"
  proof (cases "val_of s m = 0")
    case True
    with v show ?thesis by (simp add: fp_sub_def val_of_def)
  next
    case False
    with assms(2) have "\<bar>val_of s m\<bar> = m" and "(val_of s m < 0) = s"
      by (auto simp: val_of_def)
    with False v assms(3) show ?thesis by (simp add: fp_sub_def)
  qed
  with after assms(1) show ?thesis by simp
qed

section \<open>The buffer after the dispatch, the image after the loops\<close>

lemma length_fold_update: "length (fold (\<lambda>q b. b[ix q := vl q]) ps buf) = length buf"
  by (induction ps arbitrary: buf) simp_all

lemma fold_update_other:
  "i \<notin> ix ` set ps \<Longrightarrow> fold (\<lambda>q b. b[ix q := vl q]) ps buf ! i = buf ! i"
  by (induction ps arbitrary: buf) auto

lemma fold_update_distinct:
  assumes "distinct (map ix ps)" and "p \<in> set ps" and "ix p < length buf"
  shows "fold (\<lambda>q b. b[ix q := vl q]) ps buf ! ix p = vl p"
  using assms
proof (induction ps arbitrary: buf)
  case Nil
  then show ?case by simp
next
  case (Cons q ps)
  show ?case
  proof (cases "p \<in> set ps")
    case True
    with Cons show ?thesis by simp
  next
    case False
    with Cons.prems have pq: "p = q" and "ix q \<notin> ix ` set ps" by auto
    then show ?thesis using Cons.prems(3) by (simp add: fold_update_other)
  qed
qed

lemma cell_inj:
  assumes "x < w" and "x' < w" and "y * w + x = y' * w + (x'::nat)"
  shows "y = y' \<and> x = x'"
proof -
  from assms(3) have "(y * w + x) div w = (y' * w + x') div w"
    and "(y * w + x) mod w = (y' * w + x') mod w" by simp_all
  with assms(1,2) show ?thesis by simp
qed

lemma distinct_cells: "distinct (map (\<lambda>(y, x). y * w + x) (List.product [0..<h] [0..<w]))"
proof -
  have "inj_on (\<lambda>(y, x). y * w + x) (set (List.product [0..<h] [0..<w]))"
    by (rule inj_onI) (auto dest: cell_inj)
  then show ?thesis by (simp add: distinct_map distinct_product)
qed

lemma cell_less:
  assumes "x < w" and "y < h"
  shows "y * w + x < w * (h::nat)"
proof -
  from assms(2) have "Suc y \<le> h" by simp
  then have "Suc y * w \<le> h * w" by (rule mult_le_mono1)
  with assms(1) show ?thesis by (simp add: mult.commute)
qed

lemma enqueue_as_updates:
  "enqueueNDRangeKernel A v max_iter w h output =
   fold (\<lambda>q b. b[(case q of (y, x) \<Rightarrow> y * w + x) := pixel_of A v max_iter w h q])
     (List.product [0..<h] [0..<w]) output"
proof -
  have "(\<lambda>(y, x). mandelbrot A v max_iter (int w) (int h) (int x) (int y)) =
      (\<lambda>q b. b[(case q of (y, x) \<Rightarrow> y * w + x) := pixel_of A v max_iter w h q])"
    by (auto simp: fun_eq_iff mandelbrot_def pixel_of_def Let_def nat_add_distrib nat_mult_distrib)
  then show ?thesis by (simp add: enqueueNDRangeKernel_def)
qed

lemma length_enqueue: "length (enqueueNDRangeKernel A v max_iter w h output) = length output"
  by (simp add: enqueue_as_updates length_fold_update)

lemma enqueue_nth:
  assumes "x < w" and "y < h" and "length output = w * h"
  shows "enqueueNDRangeKernel A v max_iter w h output ! (y * w + x) =
    pixel_of A v max_iter w h (y, x)"
proof -
  have "(y, x) \<in> set (List.product [0..<h] [0..<w])" using assms(1,2) by simp
  moreover have "(case (y, x) of (y, x) \<Rightarrow> y * w + x) < length output"
    using cell_less [OF assms(1,2)] assms(3) by simp
  ultimately have "fold (\<lambda>q b. b[(case q of (y, x) \<Rightarrow> y * w + x) := pixel_of A v max_iter w h q])
      (List.product [0..<h] [0..<w]) output ! (case (y, x) of (y, x) \<Rightarrow> y * w + x) =
    pixel_of A v max_iter w h (y, x)"
    by (intro fold_update_distinct distinct_cells)
  then show ?thesis by (simp add: enqueue_as_updates)
qed

lemma fold_err_append:
  "fold_err g (xs @ ys) s = (case fold_err g xs s of Inl e \<Rightarrow> Inl e | Inr s' \<Rightarrow> fold_err g ys s')"
  by (induction xs arbitrary: s) (auto split: sum.splits)

lemma fold_err_map: "fold_err g (map f xs) s = fold_err (\<lambda>a. g (f a)) xs s"
  by (induction xs arbitrary: s) (auto split: sum.splits)

lemma fold_err_nested:
  "fold_err (\<lambda>y. fold_err (g y) xs) ys s = fold_err (\<lambda>(y, x). g y x) (List.product ys xs) s"
proof (induction ys arbitrary: s)
  case Nil
  then show ?case by simp
next
  case (Cons y ys)
  show ?case
    by (simp add: fold_err_append fold_err_map Cons.IH split: sum.splits)
qed

lemma entry_at_cong:
  assumes "\<And>j. j div 3 = idx \<Longrightarrow> a ! j = b ! j"
  shows "entry_at a idx = entry_at b idx"
proof -
  have "(idx * 3) div 3 = idx" and "(idx * 3 + 1) div 3 = idx" and "(idx * 3 + 2) div 3 = idx"
    by simp_all
  then show ?thesis unfolding entry_at_def using assms by metis
qed

lemma color_pixel_step:
  assumes "y * nat WIDTH + x < length output" and "length tbl = nat (MAX_ITER + 1)"
    and "(y * nat WIDTH + x) * 3 + 2 < length img"
  shows "\<exists>img'. color_pixel tbl output y x img = Inr img' \<and> length img' = length img \<and>
    entry_at img' (y * nat WIDTH + x) = tbl ! unat (s0 (output ! (y * nat WIDTH + x))) \<and>
    (\<forall>j. j div 3 \<noteq> y * nat WIDTH + x \<longrightarrow> img' ! j = img ! j)"
proof -
  define idx where "idx = y * nat WIDTH + x"
  obtain r g b where e: "tbl ! unat (s0 (output ! idx)) = (r, g, b)"
    by (cases "tbl ! unat (s0 (output ! idx))")
  have cp: "color_pixel tbl output y x img = Inr (img[idx * 3 := r, idx * 3 + 1 := g, idx * 3 + 2 := b])"
    using assms byte_in_table [OF assms(2)] e
    by (simp add: color_pixel_def Let_def idx_def)
  have "entry_at (img[idx * 3 := r, idx * 3 + 1 := g, idx * 3 + 2 := b]) idx = (r, g, b)"
    using assms(3) by (simp add: entry_at_def idx_def)
  moreover have "(img[idx * 3 := r, idx * 3 + 1 := g, idx * 3 + 2 := b]) ! j = img ! j"
    if "j div 3 \<noteq> idx" for j
  proof -
    from that have "j \<noteq> idx * 3" and "j \<noteq> idx * 3 + 1" and "j \<noteq> idx * 3 + 2" by auto
    then show ?thesis by simp
  qed
  ultimately show ?thesis using cp e by (simp add: idx_def)
qed

lemma color_fold:
  assumes "length tbl = nat (MAX_ITER + 1)"
    and "distinct (map (\<lambda>(y, x). y * nat WIDTH + x) ps)"
    and "\<forall>(y, x) \<in> set ps. y * nat WIDTH + x < length output \<and>
          (y * nat WIDTH + x) * 3 + 2 < length img"
  shows "\<exists>img'. fold_err (\<lambda>(y, x). color_pixel tbl output y x) ps img = Inr img' \<and>
    length img' = length img \<and>
    (\<forall>(y, x) \<in> set ps. entry_at img' (y * nat WIDTH + x) =
        tbl ! unat (s0 (output ! (y * nat WIDTH + x)))) \<and>
    (\<forall>j. j div 3 \<notin> (\<lambda>(y, x). y * nat WIDTH + x) ` set ps \<longrightarrow> img' ! j = img ! j)"
  using assms(2,3)
proof (induction ps arbitrary: img)
  case Nil
  then show ?case by simp
next
  case (Cons q ps)
  obtain y x where q: "q = (y, x)" by (cases q)
  from Cons.prems(2) have b1: "y * nat WIDTH + x < length output"
    and b2: "(y * nat WIDTH + x) * 3 + 2 < length img" by (auto simp: q)
  from color_pixel_step [OF b1 assms(1) b2] obtain img1
    where s1: "color_pixel tbl output y x img = Inr img1" and l1: "length img1 = length img"
      and e1: "entry_at img1 (y * nat WIDTH + x) = tbl ! unat (s0 (output ! (y * nat WIDTH + x)))"
      and o1: "\<forall>j. j div 3 \<noteq> y * nat WIDTH + x \<longrightarrow> img1 ! j = img ! j"
    by blast
  have d: "distinct (map (\<lambda>(y, x). y * nat WIDTH + x) ps)" using Cons.prems(1) by simp
  have fresh: "y * nat WIDTH + x \<notin> (\<lambda>(y, x). y * nat WIDTH + x) ` set ps"
    using Cons.prems(1) by (auto simp: q)
  have bs: "\<forall>(y, x) \<in> set ps. y * nat WIDTH + x < length output \<and>
      (y * nat WIDTH + x) * 3 + 2 < length img1"
    using Cons.prems(2) l1 by auto
  from Cons.IH [OF d bs] obtain img'
    where s2: "fold_err (\<lambda>(y, x). color_pixel tbl output y x) ps img1 = Inr img'"
      and l2: "length img' = length img1"
      and e2: "\<forall>(y, x) \<in> set ps. entry_at img' (y * nat WIDTH + x) =
          tbl ! unat (s0 (output ! (y * nat WIDTH + x)))"
      and o2: "\<forall>j. j div 3 \<notin> (\<lambda>(y, x). y * nat WIDTH + x) ` set ps \<longrightarrow> img' ! j = img1 ! j"
    by blast
  have "entry_at img' (y * nat WIDTH + x) = entry_at img1 (y * nat WIDTH + x)"
    using o2 fresh by (intro entry_at_cong) auto
  with e1 have eq: "entry_at img' (y * nat WIDTH + x) =
      tbl ! unat (s0 (output ! (y * nat WIDTH + x)))" by simp
  have "\<forall>j. j div 3 \<notin> (\<lambda>(y, x). y * nat WIDTH + x) ` set (q # ps) \<longrightarrow> img' ! j = img ! j"
    using o1 o2 by (auto simp: q)
  with s1 s2 l1 l2 e2 eq show ?case by (auto simp: q)
qed

lemma smod_nonneg: "0 \<le> (k::int) \<Longrightarrow> k smod 256 = k mod 256"
  by (simp add: signed_modulo_int_def sgn_if)

lemma iterate_iter_nonneg: "0 \<le> iter (kernel_loop A v max_iter width height x y)"
  using mandel_loop_iter_bounds
    [of 0 A "cx A v width x" "cy A v height y" max_iter "flit A 0" "flit A 0" 0]
  by (simp add: kernel_loop_def iterate_def)

lemma pixel_s0:
  "unat (s0 (pixel_of A v max_iter w h (y, x))) =
   nat (iter (kernel_loop A v max_iter (int w) (int h) (int x) (int y)) mod 256)"
proof -
  define it where "it = iter (kernel_loop A v max_iter (int w) (int h) (int x) (int y))"
  have "0 \<le> it" unfolding it_def by (rule iterate_iter_nonneg)
  then have "it smod 256 = it mod 256" by (rule smod_nonneg)
  moreover have "unat (word_of_int (it mod 256) :: u8) = nat (it mod 256)"
    by (simp add: unsigned_of_int take_bit_eq_mod)
  ultimately show ?thesis by (simp add: pixel_of_def Let_def it_def)
qed

lemma raster_size: "nat (WIDTH * HEIGHT) = nat WIDTH * nat HEIGHT"
  by (simp add: WIDTH_def HEIGHT_def)

lemma image_size: "nat (WIDTH * HEIGHT * 3) = nat WIDTH * nat HEIGHT * 3"
  by (simp add: WIDTH_def HEIGHT_def)

lemma generateMandelbrot_pixel:
  assumes "length tbl = nat (MAX_ITER + 1)" and "length img = nat (WIDTH * HEIGHT * 3)"
    and "x < nat WIDTH" and "y < nat HEIGHT"
  shows "\<exists>img'. generateMandelbrot A tbl v img = Inr img' \<and> length img' = length img \<and>
    entry_at img' (y * nat WIDTH + x) =
      tbl ! nat (iter (kernel_loop A v MAX_ITER WIDTH HEIGHT (int x) (int y)) mod 256)"
proof -
  define buf where "buf = enqueueNDRangeKernel A v MAX_ITER (nat WIDTH) (nat HEIGHT)
    (replicate (nat (WIDTH * HEIGHT)) \<lparr>s0 = 0, s1 = 0, s2 = 0\<rparr>)"
  have lo: "length buf = nat WIDTH * nat HEIGHT"
    by (simp add: buf_def length_enqueue raster_size)
  have li: "length img = nat WIDTH * nat HEIGHT * 3"
    using assms(2) by (simp add: image_size)
  have cells: "\<forall>(y, x) \<in> set (List.product [0..<nat HEIGHT] [0..<nat WIDTH]).
      y * nat WIDTH + x < length buf \<and> (y * nat WIDTH + x) * 3 + 2 < length img"
  proof (clarify, intro conjI)
    fix b a
    assume "(b, a) \<in> set (List.product [0..<nat HEIGHT] [0..<nat WIDTH])"
    then have a: "a < nat WIDTH" and b: "b < nat HEIGHT" by simp_all
    from cell_less [OF a b] show "b * nat WIDTH + a < length buf" by (simp add: lo)
    from cell_less [OF a b] show "(b * nat WIDTH + a) * 3 + 2 < length img" by (simp add: li)
  qed
  from color_fold [OF assms(1) distinct_cells cells] obtain img'
    where r: "fold_err (\<lambda>(y, x). color_pixel tbl buf y x)
        (List.product [0..<nat HEIGHT] [0..<nat WIDTH]) img = Inr img'"
      and l: "length img' = length img"
      and e: "\<forall>(y, x) \<in> set (List.product [0..<nat HEIGHT] [0..<nat WIDTH]).
        entry_at img' (y * nat WIDTH + x) = tbl ! unat (s0 (buf ! (y * nat WIDTH + x)))"
    by blast
  have g: "generateMandelbrot A tbl v img = Inr img'"
    using r by (simp add: generateMandelbrot_def color_rows_def fold_err_nested buf_def)
  have "(y, x) \<in> set (List.product [0..<nat HEIGHT] [0..<nat WIDTH])" using assms(3,4) by simp
  with e have "entry_at img' (y * nat WIDTH + x) =
      tbl ! unat (s0 (buf ! (y * nat WIDTH + x)))" by blast
  moreover have "buf ! (y * nat WIDTH + x) =
      pixel_of A v MAX_ITER (nat WIDTH) (nat HEIGHT) (y, x)"
    unfolding buf_def by (intro enqueue_nth assms(3,4)) (simp add: raster_size)
  moreover have "int (nat WIDTH) = WIDTH" and "int (nat HEIGHT) = HEIGHT"
    by (simp_all add: WIDTH_def HEIGHT_def)
  ultimately have "entry_at img' (y * nat WIDTH + x) =
      tbl ! nat (iter (kernel_loop A v MAX_ITER WIDTH HEIGHT (int x) (int y)) mod 256)"
    by (simp add: pixel_s0)
  with g l show ?thesis by blast
qed

section \<open>A pixel of the first frame\<close>

lemma mandel_loop_next:
  assumes "it < max_iter"
    and "\<not> fgt A (fadd A (fmul A z_x z_x) (fmul A z_y z_y)) (flit A 4)"
    and "fadd A (fsub A (fmul A z_x z_x) (fmul A z_y z_y)) c_x = z_x'"
    and "fadd A (fmul A (fmul A (flit A 2) z_x) z_y) c_y = z_y'"
  shows "mandel_loop A c_x c_y max_iter z_x z_y it n =
    mandel_loop A c_x c_y max_iter z_x' z_y' (it + 1) (Suc n)"
  using mandel_loop_continue [OF assms(1,2)] assms(3,4) by simp

text \<open>
  The work-item \<open>(480, 341)\<close> of the first frame: its coordinate lies well inside the set,
  and in \<^verbatim>\<open>float\<close> arithmetic its orbit is constant from the fourth step on.
\<close>

lemma first_frame_cx: "cx (ieee binary32) view0 WIDTH 480 = Fin True (99365 / 16777216)"
  by (simp add: cx_def scaleX_def view0_def float_init_def WIDTH_def signed_divide_int_def
      ieee_def fp_eval)

lemma first_frame_cy: "cy (ieee binary32) view0 HEIGHT 341 = Fin False (190633 / 33554432)"
  by (simp add: cy_def scaleY_def view0_def float_init_def HEIGHT_def signed_divide_int_def
      ieee_def fp_eval)

lemma orbit_test_0:
  "\<not> fgt (ieee binary32) (fadd (ieee binary32)
      (fmul (ieee binary32) (Fin False 0) (Fin False 0))
      (fmul (ieee binary32) (Fin False 0) (Fin False 0))) (flit (ieee binary32) 4)"
  by (simp add: ieee_def fp_eval)

lemma orbit_x_0:
  "fadd (ieee binary32) (fsub (ieee binary32)
      (fmul (ieee binary32) (Fin False 0) (Fin False 0))
      (fmul (ieee binary32) (Fin False 0) (Fin False 0))) (Fin True (99365 / 16777216)) =
   Fin True (99365 / 16777216)"
  by (simp add: ieee_def fp_eval)

lemma orbit_y_0:
  "fadd (ieee binary32) (fmul (ieee binary32)
      (fmul (ieee binary32) (flit (ieee binary32) 2) (Fin False 0)) (Fin False 0)) (Fin False (190633 / 33554432)) =
   Fin False (190633 / 33554432)"
  by (simp add: ieee_def fp_eval)

lemma orbit_test_1:
  "\<not> fgt (ieee binary32) (fadd (ieee binary32)
      (fmul (ieee binary32) (Fin True (99365 / 16777216)) (Fin True (99365 / 16777216)))
      (fmul (ieee binary32) (Fin False (190633 / 33554432)) (Fin False (190633 / 33554432)))) (flit (ieee binary32) 4)"
  by (simp add: ieee_def fp_eval)

lemma orbit_x_1:
  "fadd (ieee binary32) (fsub (ieee binary32)
      (fmul (ieee binary32) (Fin True (99365 / 16777216)) (Fin True (99365 / 16777216)))
      (fmul (ieee binary32) (Fin False (190633 / 33554432)) (Fin False (190633 / 33554432)))) (Fin True (99365 / 16777216)) =
   Fin True (12712707 / 2147483648)"
  by (simp add: ieee_def fp_eval)

lemma orbit_y_1:
  "fadd (ieee binary32) (fmul (ieee binary32)
      (fmul (ieee binary32) (flit (ieee binary32) 2) (Fin True (99365 / 16777216))) (Fin False (190633 / 33554432))) (Fin False (190633 / 33554432)) =
   Fin False (6027997 / 1073741824)"
  by (simp add: ieee_def fp_eval)

lemma orbit_test_2:
  "\<not> fgt (ieee binary32) (fadd (ieee binary32)
      (fmul (ieee binary32) (Fin True (12712707 / 2147483648)) (Fin True (12712707 / 2147483648)))
      (fmul (ieee binary32) (Fin False (6027997 / 1073741824)) (Fin False (6027997 / 1073741824)))) (flit (ieee binary32) 4)"
  by (simp add: ieee_def fp_eval)

lemma orbit_x_2:
  "fadd (ieee binary32) (fsub (ieee binary32)
      (fmul (ieee binary32) (Fin True (12712707 / 2147483648)) (Fin True (12712707 / 2147483648)))
      (fmul (ieee binary32) (Fin False (6027997 / 1073741824)) (Fin False (6027997 / 1073741824)))) (Fin True (99365 / 16777216)) =
   Fin True (6355573 / 1073741824)"
  by (simp add: ieee_def fp_eval)

lemma orbit_y_2:
  "fadd (ieee binary32) (fmul (ieee binary32)
      (fmul (ieee binary32) (flit (ieee binary32) 2) (Fin True (12712707 / 2147483648))) (Fin False (6027997 / 1073741824))) (Fin False (190633 / 33554432)) =
   Fin False (12057773 / 2147483648)"
  by (simp add: ieee_def fp_eval)

lemma orbit_test_3:
  "\<not> fgt (ieee binary32) (fadd (ieee binary32)
      (fmul (ieee binary32) (Fin True (6355573 / 1073741824)) (Fin True (6355573 / 1073741824)))
      (fmul (ieee binary32) (Fin False (12057773 / 2147483648)) (Fin False (12057773 / 2147483648)))) (flit (ieee binary32) 4)"
  by (simp add: ieee_def fp_eval)

lemma orbit_x_3:
  "fadd (ieee binary32) (fsub (ieee binary32)
      (fmul (ieee binary32) (Fin True (6355573 / 1073741824)) (Fin True (6355573 / 1073741824)))
      (fmul (ieee binary32) (Fin False (12057773 / 2147483648)) (Fin False (12057773 / 2147483648)))) (Fin True (99365 / 16777216)) =
   Fin True (794449 / 134217728)"
  by (simp add: ieee_def fp_eval)

lemma orbit_y_3:
  "fadd (ieee binary32) (fmul (ieee binary32)
      (fmul (ieee binary32) (flit (ieee binary32) 2) (Fin True (6355573 / 1073741824))) (Fin False (12057773 / 2147483648))) (Fin False (190633 / 33554432)) =
   Fin False (6028885 / 1073741824)"
  by (simp add: ieee_def fp_eval)

lemma orbit_test_4:
  "\<not> fgt (ieee binary32) (fadd (ieee binary32)
      (fmul (ieee binary32) (Fin True (794449 / 134217728)) (Fin True (794449 / 134217728)))
      (fmul (ieee binary32) (Fin False (6028885 / 1073741824)) (Fin False (6028885 / 1073741824)))) (flit (ieee binary32) 4)"
  by (simp add: ieee_def fp_eval)

lemma orbit_x_4:
  "fadd (ieee binary32) (fsub (ieee binary32)
      (fmul (ieee binary32) (Fin True (794449 / 134217728)) (Fin True (794449 / 134217728)))
      (fmul (ieee binary32) (Fin False (6028885 / 1073741824)) (Fin False (6028885 / 1073741824)))) (Fin True (99365 / 16777216)) =
   Fin True (794449 / 134217728)"
  by (simp add: ieee_def fp_eval)

lemma orbit_y_4:
  "fadd (ieee binary32) (fmul (ieee binary32)
      (fmul (ieee binary32) (flit (ieee binary32) 2) (Fin True (794449 / 134217728))) (Fin False (6028885 / 1073741824))) (Fin False (190633 / 33554432)) =
   Fin False (6028885 / 1073741824)"
  by (simp add: ieee_def fp_eval)

lemma first_frame_orbit:
  "iterate (ieee binary32) (Fin True (99365 / 16777216)) (Fin False (190633 / 33554432)) MAX_ITER =
    \<lparr>zx = Fin True (794449 / 134217728), zy = Fin False (6028885 / 1073741824), iter = 800, escaped = False, passes = 800\<rparr>"
proof -
  let ?A = "ieee binary32"
  let ?loop = "mandel_loop ?A (Fin True (99365 / 16777216)) (Fin False (190633 / 33554432)) MAX_ITER"
  have z: "flit ?A 0 = Fin False 0" by (simp add: ieee_def fp_of_rat_def pack_zero)
  have l0: "(0::int) < MAX_ITER" and l1: "(0::int) + 1 < MAX_ITER"
    and l2: "(0::int) + 1 + 1 < MAX_ITER" and l3: "(0::int) + 1 + 1 + 1 < MAX_ITER"
    by (simp_all add: MAX_ITER_def)
  have "iterate ?A (Fin True (99365 / 16777216)) (Fin False (190633 / 33554432)) MAX_ITER = ?loop (Fin False 0) (Fin False 0) 0 0"
    by (simp only: iterate_def z)
  also have "\<dots> = ?loop (Fin True (99365 / 16777216)) (Fin False (190633 / 33554432)) (0 + 1) (Suc 0)"
    by (rule mandel_loop_next [OF l0 orbit_test_0 orbit_x_0 orbit_y_0])
  also have "\<dots> = ?loop (Fin True (12712707 / 2147483648)) (Fin False (6027997 / 1073741824)) (0 + 1 + 1) (Suc (Suc 0))"
    by (rule mandel_loop_next [OF l1 orbit_test_1 orbit_x_1 orbit_y_1])
  also have "\<dots> = ?loop (Fin True (6355573 / 1073741824)) (Fin False (12057773 / 2147483648)) (0 + 1 + 1 + 1) (Suc (Suc (Suc 0)))"
    by (rule mandel_loop_next [OF l2 orbit_test_2 orbit_x_2 orbit_y_2])
  also have "\<dots> = ?loop (Fin True (794449 / 134217728)) (Fin False (6028885 / 1073741824)) (0 + 1 + 1 + 1 + 1) (Suc (Suc (Suc (Suc 0))))"
    by (rule mandel_loop_next [OF l3 orbit_test_3 orbit_x_3 orbit_y_3])
  also have "\<dots> = \<lparr>zx = Fin True (794449 / 134217728), zy = Fin False (6028885 / 1073741824),
      iter = max (0 + 1 + 1 + 1 + 1) MAX_ITER, escaped = False,
      passes = Suc (Suc (Suc (Suc 0))) + nat (MAX_ITER - (0 + 1 + 1 + 1 + 1))\<rparr>"
    by (rule mandel_loop_fixed [OF orbit_test_4 orbit_x_4 orbit_y_4])
  finally show ?thesis by (simp add: MAX_ITER_def)
qed


section \<open>The claims\<close>

text \<open>
  C1 does not hold of the code. The kernel stores \<^verbatim>\<open>iter % 256\<close> in a byte, and the host
  indexes the palette with that byte, so the image receives the palette entry of the
  iteration count modulo 256 (\<open>generateMandelbrot_pixel\<close>). In the first frame of the
  program the pixel \<open>(480, 341)\<close> has the iteration count 800; the image holds for it the
  entry 32 of the palette, \<open>(0, 5, 76)\<close>, and not the entry 800, which is \<open>(0, 0, 0)\<close>.
\<close>

theorem first_frame_interior_pixel_takes_entry_32:
  "\<exists>img'. generateMandelbrot (ieee binary32) (initColorTable x87_extended colorTable0)
       (view program0) (image_buf program0) = Inr img' \<and>
     iter (kernel_loop (ieee binary32) (view program0) MAX_ITER WIDTH HEIGHT 480 341) = 800 \<and>
     entry_at img' (341 * nat WIDTH + 480) = initColorTable x87_extended colorTable0 ! 32 \<and>
     entry_at img' (341 * nat WIDTH + 480) = (0, 5, 76) \<and>
     initColorTable x87_extended colorTable0 ! 800 = (0, 0, 0)"
proof -
  let ?tbl = "initColorTable x87_extended colorTable0"
  have v: "view program0 = view0" by (simp add: program0_def)
  have lt: "length colorTable0 = nat (MAX_ITER + 1)" by (simp add: colorTable0_def)
  have ltbl: "length ?tbl = nat (MAX_ITER + 1)" by (rule length_initColorTable [OF lt])
  have limg: "length (image_buf program0) = nat (WIDTH * HEIGHT * 3)"
    by (simp add: program0_def)
  have x: "(480::nat) < nat WIDTH" and y: "(341::nat) < nat HEIGHT"
    by (simp_all add: WIDTH_def HEIGHT_def)
  have it: "iter (kernel_loop (ieee binary32) view0 MAX_ITER WIDTH HEIGHT 480 341) = 800"
    by (simp add: kernel_loop_def first_frame_cx first_frame_cy first_frame_orbit)
  have e32: "?tbl ! 32 = (0, 5, 76)"
    using initColorTable_nth [OF lt, of 32 x87_extended] color_of_32
    by (simp add: MAX_ITER_def)
  have e800: "?tbl ! 800 = (0, 0, 0)"
    using initColorTable_nth [OF lt, of 800 x87_extended] color_of_800
    by (simp add: MAX_ITER_def)
  from generateMandelbrot_pixel [OF ltbl limg x y, of "ieee binary32" view0] obtain img'
    where g: "generateMandelbrot (ieee binary32) ?tbl view0 (image_buf program0) = Inr img'"
      and e: "entry_at img' (341 * nat WIDTH + 480) =
        ?tbl ! nat (iter (kernel_loop (ieee binary32) view0 MAX_ITER WIDTH HEIGHT
          (int 480) (int 341)) mod 256)"
    by blast
  from e it have "entry_at img' (341 * nat WIDTH + 480) = ?tbl ! 32" by simp
  with g it e32 e800 show ?thesis unfolding v by (intro exI [of _ img']) simp
qed

text \<open>
  C2, as the code has it. For every viewport and every \<^verbatim>\<open>max_iter\<close> of at least 3, a
  work-item whose coordinate is exactly \<open>(2.0, 0.0)\<close> leaves the loop through \<^verbatim>\<open>break\<close> on
  its third pass, with the counter 2: after one step \<open>|z|\<^sup>2\<close> is 4, which the strict test
  \<^verbatim>\<open>> 4.0\<close> lets pass, and after two steps it is 36.
\<close>

theorem two_escapes_on_third_pass:
  assumes "3 \<le> max_iter"
    and "cx (ieee binary32) v width x = Fin False 2"
    and "cy (ieee binary32) v height y = Fin t 0"
  shows "kernel_loop (ieee binary32) v max_iter width height x y =
    \<lparr>zx = Fin False 6, zy = Fin False 0, iter = 2, escaped = True, passes = 3\<rparr>"
  using two_orbit [OF assms(1)] assms(2,3) by (simp add: kernel_loop_def)

theorem two_escapes_on_third_pass_witness:
  "(3::int) \<le> MAX_ITER \<and>
   cx (ieee binary32) \<lparr>offsetX = Fin False 2, offsetY = Fin False 0, zoom = Fin False (1 / 2)\<rparr>
     WIDTH 400 = Fin False 2 \<and>
   cy (ieee binary32) \<lparr>offsetX = Fin False 2, offsetY = Fin False 0, zoom = Fin False (1 / 2)\<rparr>
     HEIGHT 300 = Fin False 0 \<and>
   kernel_loop (ieee binary32)
     \<lparr>offsetX = Fin False 2, offsetY = Fin False 0, zoom = Fin False (1 / 2)\<rparr>
     MAX_ITER WIDTH HEIGHT 400 300 =
    \<lparr>zx = Fin False 6, zy = Fin False 0, iter = 2, escaped = True, passes = 3\<rparr>"
proof -
  have m: "(3::int) \<le> MAX_ITER" by (simp add: MAX_ITER_def)
  have x: "cx (ieee binary32)
      \<lparr>offsetX = Fin False 2, offsetY = Fin False 0, zoom = Fin False (1 / 2)\<rparr> WIDTH 400 =
      Fin False 2"
    by (subst centre_cx) (simp add: fp_eval)
  have y: "cy (ieee binary32)
      \<lparr>offsetX = Fin False 2, offsetY = Fin False 0, zoom = Fin False (1 / 2)\<rparr> HEIGHT 300 =
      Fin False 0"
    by (subst centre_cy) (simp add: fp_eval)
  from m x y two_escapes_on_third_pass [OF m x y] show ?thesis by simp
qed

text \<open>
  C2, as the claim states it, fails: at the coordinate \<open>(2.0, 0.0)\<close> and the program's
  \<open>MAX_ITER\<close> the counter returned is 2, not at most 1.
\<close>

theorem two_counter_exceeds_one:
  "cx (ieee binary32) \<lparr>offsetX = Fin False 2, offsetY = Fin False 0, zoom = Fin False (1 / 2)\<rparr>
     WIDTH 400 = Fin False 2 \<and>
   cy (ieee binary32) \<lparr>offsetX = Fin False 2, offsetY = Fin False 0, zoom = Fin False (1 / 2)\<rparr>
     HEIGHT 300 = Fin False 0 \<and>
   \<not> iter (kernel_loop (ieee binary32)
       \<lparr>offsetX = Fin False 2, offsetY = Fin False 0, zoom = Fin False (1 / 2)\<rparr>
       MAX_ITER WIDTH HEIGHT 400 300) \<le> 1"
proof -
  have m: "(3::int) \<le> MAX_ITER" by (simp add: MAX_ITER_def)
  have x: "cx (ieee binary32)
      \<lparr>offsetX = Fin False 2, offsetY = Fin False 0, zoom = Fin False (1 / 2)\<rparr> WIDTH 400 =
      Fin False 2"
    by (subst centre_cx) (simp add: fp_eval)
  have y: "cy (ieee binary32)
      \<lparr>offsetX = Fin False 2, offsetY = Fin False 0, zoom = Fin False (1 / 2)\<rparr> HEIGHT 300 =
      Fin False 0"
    by (subst centre_cy) (simp add: fp_eval)
  from x y two_orbit [OF m, of False] show ?thesis by (simp add: kernel_loop_def)
qed

text \<open>
  C3. While \<^verbatim>\<open>isGenerating\<close> is set, \<^verbatim>\<open>generateMandelbrotAsync\<close> returns at once: the
  whole program state is as before, so the image, the flag and the viewport are unchanged
  and no thread is started.
\<close>

theorem generateMandelbrotAsync_noop_when_generating:
  assumes "isGenerating p"
  shows "generateMandelbrotAsync p = p"
  using assms by (simp add: generateMandelbrotAsync_def)

theorem generateMandelbrotAsync_noop_when_generating_witness:
  "isGenerating (program0\<lparr>isGenerating := True, detached := 1\<rparr>) \<and>
   generateMandelbrotAsync (program0\<lparr>isGenerating := True, detached := 1\<rparr>) =
     program0\<lparr>isGenerating := True, detached := 1\<rparr>"
  using generateMandelbrotAsync_noop_when_generating
    [of "program0\<lparr>isGenerating := True, detached := 1\<rparr>"]
  by simp

text \<open>
  C4. For every viewport, a work-item whose coordinate is exactly \<open>(0.0, 0.0)\<close> (a zero of
  either sign in each component) never takes the \<^verbatim>\<open>break\<close>, and its counter ends at
  \<open>MAX_ITER\<close>.
\<close>

theorem origin_never_escapes:
  assumes "cx (ieee binary32) v width x = Fin s 0"
    and "cy (ieee binary32) v height y = Fin t 0"
  shows "iter (kernel_loop (ieee binary32) v MAX_ITER width height x y) = MAX_ITER \<and>
    \<not> escaped (kernel_loop (ieee binary32) v MAX_ITER width height x y)"
  using assms by (simp add: kernel_loop_def zero_orbit MAX_ITER_def)

theorem origin_never_escapes_witness:
  "cx (ieee binary32) \<lparr>offsetX = Fin False 0, offsetY = Fin False 0, zoom = Fin False (1 / 2)\<rparr>
     WIDTH 400 = Fin False 0 \<and>
   cy (ieee binary32) \<lparr>offsetX = Fin False 0, offsetY = Fin False 0, zoom = Fin False (1 / 2)\<rparr>
     HEIGHT 300 = Fin False 0 \<and>
   iter (kernel_loop (ieee binary32)
     \<lparr>offsetX = Fin False 0, offsetY = Fin False 0, zoom = Fin False (1 / 2)\<rparr>
     MAX_ITER WIDTH HEIGHT 400 300) = MAX_ITER \<and>
   \<not> escaped (kernel_loop (ieee binary32)
     \<lparr>offsetX = Fin False 0, offsetY = Fin False 0, zoom = Fin False (1 / 2)\<rparr>
     MAX_ITER WIDTH HEIGHT 400 300)"
proof -
  have x: "cx (ieee binary32)
      \<lparr>offsetX = Fin False 0, offsetY = Fin False 0, zoom = Fin False (1 / 2)\<rparr> WIDTH 400 =
      Fin False 0"
    by (subst centre_cx) (simp add: fp_eval)
  have y: "cy (ieee binary32)
      \<lparr>offsetX = Fin False 0, offsetY = Fin False 0, zoom = Fin False (1 / 2)\<rparr> HEIGHT 300 =
      Fin False 0"
    by (subst centre_cy) (simp add: fp_eval)
  from x y origin_never_escapes [OF x y] show ?thesis by simp
qed

text \<open>
  C5. For every arithmetic, viewport and work-item of the \<open>WIDTH\<close> by \<open>HEIGHT\<close> range, the
  coordinate the kernel iterates is \<open>(x - 400) * (3.5 / 800 / zoom) + offsetX\<close> and
  \<open>(y - 300) * (2.0 / 600 / zoom) + offsetY\<close>, each operation in the device's arithmetic.
\<close>

theorem kernel_coordinate_formula:
  "cx A v WIDTH x =
     fadd A (fmul A (fint A (x - 400))
       (fdiv A (fdiv A (flit A (7 / 2)) (fint A 800)) (zoom v))) (offsetX v) \<and>
   cy A v HEIGHT y =
     fadd A (fmul A (fint A (y - 300))
       (fdiv A (fdiv A (flit A 2) (fint A 600)) (zoom v))) (offsetY v) \<and>
   kernel_loop A v MAX_ITER WIDTH HEIGHT x y = iterate A (cx A v WIDTH x) (cy A v HEIGHT y) MAX_ITER"
  by (simp add: cx_def cy_def scaleX_def scaleY_def WIDTH_def HEIGHT_def signed_divide_int_def
      kernel_loop_def)

text \<open>
  C6. \<^verbatim>\<open>initColorTable\<close> overwrites every entry of the table, so what it leaves does not
  depend on what the table held: two runs give the same table, and a second run changes
  nothing. The entries at 0 and at \<open>MAX_ITER\<close> are exactly \<open>(0, 0, 0)\<close>, with the 80-bit
  \<^verbatim>\<open>long double\<close> and with a 64-bit one.
\<close>

theorem initColorTable_deterministic_black_ends:
  assumes "length t1 = nat (MAX_ITER + 1)" and "length t2 = nat (MAX_ITER + 1)"
  shows "initColorTable ld t1 = initColorTable ld t2 \<and>
    initColorTable ld (initColorTable ld t1) = initColorTable ld t1 \<and>
    initColorTable x87_extended t1 ! 0 = (0, 0, 0) \<and>
    initColorTable x87_extended t1 ! nat MAX_ITER = (0, 0, 0) \<and>
    initColorTable binary64 t1 ! 0 = (0, 0, 0) \<and>
    initColorTable binary64 t1 ! nat MAX_ITER = (0, 0, 0)"
proof -
  have a: "initColorTable ld t1 = initColorTable ld t2"
    using assms by (simp add: initColorTable_eq)
  have b: "initColorTable ld (initColorTable ld t1) = initColorTable ld t1"
    using assms(1) by (simp add: initColorTable_eq)
  have c: "initColorTable x87_extended t1 ! 0 = (0, 0, 0)"
    using initColorTable_nth [OF assms(1), of 0 x87_extended] color_of_0 by simp
  have d: "initColorTable x87_extended t1 ! nat MAX_ITER = (0, 0, 0)"
    using initColorTable_nth [OF assms(1), of "nat MAX_ITER" x87_extended] color_of_800
    by (simp add: MAX_ITER_def)
  have e: "initColorTable binary64 t1 ! 0 = (0, 0, 0)"
    using initColorTable_nth [OF assms(1), of 0 binary64] color_of_0_b64 by simp
  have f: "initColorTable binary64 t1 ! nat MAX_ITER = (0, 0, 0)"
    using initColorTable_nth [OF assms(1), of "nat MAX_ITER" binary64] color_of_800_b64
    by (simp add: MAX_ITER_def)
  from a b c d e f show ?thesis by simp
qed

theorem initColorTable_deterministic_black_ends_witness:
  "length colorTable0 = nat (MAX_ITER + 1) \<and>
   length (replicate 801 (1, 2, 3) :: rgb list) = nat (MAX_ITER + 1) \<and>
   initColorTable x87_extended colorTable0 =
     initColorTable x87_extended (replicate 801 (1, 2, 3)) \<and>
   initColorTable x87_extended (initColorTable x87_extended colorTable0) =
     initColorTable x87_extended colorTable0 \<and>
   initColorTable x87_extended colorTable0 ! 0 = (0, 0, 0) \<and>
   initColorTable x87_extended colorTable0 ! nat MAX_ITER = (0, 0, 0) \<and>
   initColorTable binary64 colorTable0 ! 0 = (0, 0, 0) \<and>
   initColorTable binary64 colorTable0 ! nat MAX_ITER = (0, 0, 0)"
proof -
  have a: "length colorTable0 = nat (MAX_ITER + 1)" by (simp add: colorTable0_def)
  have b: "length (replicate 801 (1, 2, 3) :: rgb list) = nat (MAX_ITER + 1)"
    by (simp add: MAX_ITER_def)
  from a b initColorTable_deterministic_black_ends [OF a b, of x87_extended]
  show ?thesis by blast
qed

text \<open>
  C10. The byte \<^verbatim>\<open>s0\<close> of a pixel is at most 255, and the table has \<open>MAX_ITER + 1 = 801\<close>
  entries, so the lookup of line 120 is inside the table for every pixel: neither the loop
  body nor \<^verbatim>\<open>generateMandelbrot\<close> as a whole ever faults on the table.
\<close>

theorem colorTable_lookup_in_bounds:
  assumes "length tbl = nat (MAX_ITER + 1)"
  shows "unat (s0 px) \<le> 255 \<and> unat (s0 px) < length tbl \<and>
    color_pixel tbl output y x img \<noteq> Inl ColorTableOutOfBounds \<and>
    generateMandelbrot A tbl v img \<noteq> Inl ColorTableOutOfBounds"
proof -
  have "unat (s0 px) < 2 ^ 8" using unsigned_less [of "s0 px", where ?'a = nat] by simp
  then have "unat (s0 px) \<le> 255" by simp
  with byte_in_table [OF assms] color_pixel_in_table [OF assms] color_rows_in_table [OF assms]
  show ?thesis by (simp add: generateMandelbrot_def)
qed

theorem colorTable_lookup_in_bounds_witness:
  "length colorTable0 = nat (MAX_ITER + 1) \<and>
   unat (s0 \<lparr>s0 = 255, s1 = 255, s2 = 255\<rparr>) < length colorTable0 \<and>
   color_pixel colorTable0 [\<lparr>s0 = 255, s1 = 255, s2 = 255\<rparr>] 0 0 [7, 7, 7] \<noteq>
     Inl ColorTableOutOfBounds \<and>
   generateMandelbrot (ieee binary32) colorTable0 view0 [7, 7, 7] \<noteq>
     Inl ColorTableOutOfBounds"
proof -
  have a: "length colorTable0 = nat (MAX_ITER + 1)" by (simp add: colorTable0_def)
  from a colorTable_lookup_in_bounds [OF a, of "\<lparr>s0 = 255, s1 = 255, s2 = 255\<rparr>"
      "[\<lparr>s0 = 255, s1 = 255, s2 = 255\<rparr>]" 0 0 "[7, 7, 7]" "ieee binary32" view0]
  show ?thesis by blast
qed

text \<open>
  C7. \<^verbatim>\<open>zoom\<close> starts at 0.5, and after any finite sequence of key events it still
  compares greater than zero: a pan leaves it alone, and a zoom step, rounded to
  \<^verbatim>\<open>long double\<close> and back to \<^verbatim>\<open>float\<close>, yields a positive \<^verbatim>\<open>float\<close> or plus
  infinity, never zero. This holds for every \<^verbatim>\<open>long double\<close> format of at least 3 bits
  whose smallest positive number is at most \<open>2 powi (- 152)\<close> and in which 2 is finite.
\<close>

theorem zoom_stays_positive:
  assumes "3 \<le> prec ld" and "emin ld - int (prec ld) + 1 \<le> - 152" and "1 \<le> emax ld"
  shows "fp_gt (zoom (view (fold (keydown ld) ks program0))) (Fin False 0)"
  by (rule positive_float_gt [OF keys_positive [OF assms zoom0_positive]])

theorem zoom_stays_positive_witness:
  "3 \<le> prec x87_extended \<and> emin x87_extended - int (prec x87_extended) + 1 \<le> - 152 \<and>
   1 \<le> emax x87_extended \<and>
   fp_gt (zoom (view (fold (keydown x87_extended) [SDLK_q, SDLK_d, SDLK_e, SDLK_e] program0)))
     (Fin False 0)"
proof -
  have a: "3 \<le> prec x87_extended" by (simp add: x87_extended_def)
  have b: "emin x87_extended - int (prec x87_extended) + 1 \<le> - 152"
    by (simp add: x87_extended_def)
  have c: "1 \<le> emax x87_extended" by (simp add: x87_extended_def)
  from zoom_stays_positive [OF a b c, of "[SDLK_q, SDLK_d, SDLK_e, SDLK_e]"] a b c
  show ?thesis by blast
qed





end
